theory Spec2Isabelle
  imports Main "HOL-Library.Sublist"
begin

section \<open>Text primitives of the scraper\<close>

text \<open>
  A Python \<^verbatim>\<open>str\<close> is a sequence of code points. The model takes the code points
  below 256 (ASCII and Latin-1, which hold the German texts of the portal), one
  \<^typ>\<open>char\<close> each, so that \<^verbatim>\<open>len\<close> is \<^const>\<open>length\<close>. On this range
  \<^verbatim>\<open>str.isspace\<close> and the regular expression class \<^verbatim>\<open>\s\<close> are the same twelve code
  points, \<^verbatim>\<open>\d\<close> is \<^verbatim>\<open>0\<close> to \<^verbatim>\<open>9\<close>, and \<^verbatim>\<open>str.lower\<close> moves the
  ASCII and the Latin-1 capital letters up by 32.
\<close>

definition py_isspace :: "char \<Rightarrow> bool" where
  "py_isspace c = (of_char c \<in> {9, 10, 11, 12, 13, 28, 29, 30, 31, 32, 133, 160 :: nat})"

definition py_isdigit :: "char \<Rightarrow> bool" where
  "py_isdigit c = (48 \<le> (of_char c :: nat) \<and> (of_char c :: nat) \<le> 57)"

definition py_lower_char :: "char \<Rightarrow> char" where
  "py_lower_char c =
     (let n = (of_char c :: nat)
      in if (65 \<le> n \<and> n \<le> 90) \<or> (192 \<le> n \<and> n \<le> 222 \<and> n \<noteq> 215)
         then char_of (n + 32) else c)"

definition py_lower :: "string \<Rightarrow> string" where
  "py_lower s = map py_lower_char s"

text \<open>\<^verbatim>\<open>sub in s\<close> on strings: \<^verbatim>\<open>sub\<close> occurs in \<^verbatim>\<open>s\<close> as a contiguous piece.\<close>

fun py_in :: "string \<Rightarrow> string \<Rightarrow> bool" where
  "py_in sub [] = (sub = [])"
| "py_in sub (c # cs) = (prefix sub (c # cs) \<or> py_in sub cs)"

text \<open>\<^verbatim>\<open>re.sub(r'\s+', ' ', t)\<close>: every maximal run of whitespace becomes one space.\<close>

function sub_ws :: "string \<Rightarrow> string" where
  "sub_ws [] = []"
| "sub_ws (c # cs) =
     (if py_isspace c then CHR '' '' # sub_ws (dropWhile py_isspace cs)
      else c # sub_ws cs)"
  by pat_completeness auto
termination
  by (relation "measure length") (auto simp: less_Suc_eq_le length_dropWhile_le)

text \<open>\<^verbatim>\<open>str.strip()\<close>: leading and trailing whitespace removed.\<close>

definition py_strip :: "string \<Rightarrow> string" where
  "py_strip s = rev (dropWhile py_isspace (rev (dropWhile py_isspace s)))"

text \<open>\<^verbatim>\<open>def normalize(t): return re.sub(r'\s+', ' ', t).strip()\<close>\<close>

definition normalize :: "string \<Rightarrow> string" where
  "normalize t = py_strip (sub_ws t)"

subsection \<open>The regular expressions of the source\<close>

text \<open>
  The fragment of Python's \<^verbatim>\<open>re\<close> syntax that the three patterns of the source use:
  a literal string, \<^verbatim>\<open>\s\<close>, \<^verbatim>\<open>\d\<close>, concatenation, \<^verbatim>\<open>a|b\<close>, \<^verbatim>\<open>a*\<close>,
  \<^verbatim>\<open>a?\<close> and \<^verbatim>\<open>a{m,n}\<close> (\<^verbatim>\<open>a{m}\<close> is \<^verbatim>\<open>a{m,m}\<close>).
\<close>

datatype regex =
    Str string
  | WS
  | Dig
  | Cat regex regex
  | Or regex regex
  | Star regex
  | Opt regex
  | Rep nat nat regex

fun rsize :: "regex \<Rightarrow> nat" where
  "rsize (Str p) = 1"
| "rsize WS = 1"
| "rsize Dig = 1"
| "rsize (Cat a b) = Suc (rsize a + rsize b)"
| "rsize (Or a b) = Suc (rsize a + rsize b)"
| "rsize (Star a) = Suc (rsize a)"
| "rsize (Opt a) = Suc (rsize a)"
| "rsize (Rep m n a) = Suc (rsize a + m + n)"

text \<open>
  \<open>rmatch ic r s\<close> lists, in the order a backtracking matcher tries them, the rest
  of \<open>s\<close> after each way \<open>r\<close> can match at the start of \<open>s\<close>; \<open>ic\<close> is the flag
  \<^verbatim>\<open>re.IGNORECASE\<close>. A repetition takes an iteration only when it consumed
  something, as the \<^verbatim>\<open>re\<close> engine does.
\<close>

function rmatch :: "bool \<Rightarrow> regex \<Rightarrow> string \<Rightarrow> string list" where
  "rmatch ic (Str p) s =
     (let t = take (length p) s
      in if length p \<le> length s \<and> (if ic then py_lower t = py_lower p else t = p)
         then [drop (length p) s] else [])"
| "rmatch ic WS s = (case s of [] \<Rightarrow> [] | c # cs \<Rightarrow> if py_isspace c then [cs] else [])"
| "rmatch ic Dig s = (case s of [] \<Rightarrow> [] | c # cs \<Rightarrow> if py_isdigit c then [cs] else [])"
| "rmatch ic (Cat a b) s = concat (map (rmatch ic b) (rmatch ic a s))"
| "rmatch ic (Or a b) s = rmatch ic a s @ rmatch ic b s"
| "rmatch ic (Star a) s =
     concat (map (rmatch ic (Star a)) (filter (\<lambda>t. length t < length s) (rmatch ic a s))) @ [s]"
| "rmatch ic (Opt a) s = rmatch ic a s @ [s]"
| "rmatch ic (Rep 0 0 a) s = [s]"
| "rmatch ic (Rep 0 (Suc n) a) s = concat (map (rmatch ic (Rep 0 n a)) (rmatch ic a s)) @ [s]"
| "rmatch ic (Rep (Suc m) 0 a) s = []"
| "rmatch ic (Rep (Suc m) (Suc n) a) s = concat (map (rmatch ic (Rep m n a)) (rmatch ic a s))"
  by pat_completeness auto
termination
  by (relation "measures [\<lambda>(ic, r, s). rsize r, \<lambda>(ic, r, s). length s]") auto

declare rmatch.simps [simp del]

text \<open>\<^verbatim>\<open>re.search(p, s)\<close> as a truth value: \<open>p\<close> matches at some position of \<open>s\<close>.\<close>

fun re_search :: "bool \<Rightarrow> regex \<Rightarrow> string \<Rightarrow> bool" where
  "re_search ic r [] = (rmatch ic r [] \<noteq> [])"
| "re_search ic r (c # cs) = (rmatch ic r (c # cs) \<noteq> [] \<or> re_search ic r cs)"

section \<open>The parsed document\<close>

text \<open>
  What \<^verbatim>\<open>BeautifulSoup(html_content, 'html.parser')\<close> hands to the scraper: a tree of
  strings and tags. A tag carries its name and the value of \<^verbatim>\<open>element.get("class", [])\<close>,
  the list of its class tokens.
\<close>

datatype node = Text string | Tag string "string list" "node list"

fun tag_name :: "node \<Rightarrow> string" where
  "tag_name (Text s) = []"
| "tag_name (Tag n cls kids) = n"

fun tag_classes :: "node \<Rightarrow> string list" where
  "tag_classes (Text s) = []"
| "tag_classes (Tag n cls kids) = cls"

text \<open>\<^verbatim>\<open>get_text()\<close>: the strings below a node, in document order, joined.\<close>

fun get_text :: "node \<Rightarrow> string" where
  "get_text (Text s) = s"
| "get_text (Tag n cls kids) = concat (map get_text kids)"

text \<open>The tags at and below a node in document order (a tag before its children).\<close>

fun tags_of :: "node \<Rightarrow> node list" where
  "tags_of (Text s) = []"
| "tags_of (Tag n cls kids) = Tag n cls kids # concat (map tags_of kids)"

text \<open>The soup is the list of the top-level nodes of the document.\<close>

definition soup_tags :: "node list \<Rightarrow> node list" where
  "soup_tags soup = concat (map tags_of soup)"

definition soup_get_text :: "node list \<Rightarrow> string" where
  "soup_get_text soup = concat (map get_text soup)"

text \<open>
  The test \<^verbatim>\<open>element.name == "div" and "Leistungen_Inhalt" in element.get("class", [])\<close>;
  \<^verbatim>\<open>find_all("div", class_="Leistungen_Inhalt")\<close> selects by the same test.
\<close>

definition is_header :: "node \<Rightarrow> bool" where
  "is_header e = (tag_name e = ''div'' \<and> ''Leistungen_Inhalt'' \<in> set (tag_classes e))"

text \<open>
  A tag of the document is the pair of its position in document order and the tag
  itself: two tags that look alike are still two objects.
\<close>

definition find_all_headers :: "node list \<Rightarrow> (nat \<times> node) list" where
  "find_all_headers soup = filter (\<lambda>(i, e). is_header e) (enumerate 0 (soup_tags soup))"

text \<open>\<^verbatim>\<open>start_node.find_all_next()\<close>: the tags after the start node in document order.\<close>

definition find_all_next :: "node list \<Rightarrow> nat \<Rightarrow> node list" where
  "find_all_next soup i = drop (Suc i) (soup_tags soup)"

section \<open>Extraction of the current classes\<close>

text \<open>\<^verbatim>\<open>r"Wintersemester\s*2025/26"\<close>\<close>

definition exact_pattern :: "regex" where
  "exact_pattern = Cat (Str ''Wintersemester'') (Cat (Star WS) (Str ''2025/26''))"

text \<open>\<^verbatim>\<open>r"(Wintersemester|Sommersemester)\s*\d{4}(/\d{2})?"\<close>\<close>

definition generic_pattern :: "regex" where
  "generic_pattern =
     Cat (Or (Str ''Wintersemester'') (Str ''Sommersemester''))
       (Cat (Star WS) (Cat (Rep 4 4 Dig) (Opt (Cat (Str ''/'') (Rep 2 2 Dig)))))"

definition target_patterns :: "regex list" where
  "target_patterns = [exact_pattern, generic_pattern]"

definition header_matches :: "regex \<Rightarrow> node \<Rightarrow> bool" where
  "header_matches p header = re_search True p (normalize (get_text header))"

text \<open>The inner loop over the headers, with its \<^verbatim>\<open>break\<close> at the first match.\<close>

fun scan_headers :: "regex \<Rightarrow> (nat \<times> node) list \<Rightarrow> (nat \<times> node) option" where
  "scan_headers p [] = None"
| "scan_headers p (h # hs) = (if header_matches p (snd h) then Some h else scan_headers p hs)"

text \<open>The outer loop over the patterns, left at \<^verbatim>\<open>if start_node: break\<close>.\<close>

fun scan_patterns :: "regex list \<Rightarrow> (nat \<times> node) list \<Rightarrow> (nat \<times> node) option" where
  "scan_patterns [] hs = None"
| "scan_patterns (p # ps) hs =
     (case scan_headers p hs of Some h \<Rightarrow> Some h | None \<Rightarrow> scan_patterns ps hs)"

text \<open>The collecting loop: it stops at the next header and keeps the anchors.\<close>

fun collect_links :: "node list \<Rightarrow> node list \<Rightarrow> node list" where
  "collect_links [] candidate_links = candidate_links"
| "collect_links (element # rest) candidate_links =
     (if is_header element then candidate_links
      else collect_links rest
             (if tag_name element = ''a'' then candidate_links @ [element] else candidate_links))"

definition junk :: "string list" where
  "junk = [''Tag'', ''Zeit'', ''Rhythmus'', ''Dauer'', ''Raum'', ''Lehrperson'', ''Hinweis'',
           ''Belegungsinformation'', ''findet statt'', ''Belegungs-'', ''PDF'', ''Stundenplan'',
           ''Anmelden'', ''Login'', ''Abmelden'']"

text \<open>Logic A: \<^verbatim>\<open>re.search(r'\d{4,6}', link_text)\<close>.\<close>

definition id_pattern :: "regex" where
  "id_pattern = Rep 4 6 Dig"

definition logic_a :: "string \<Rightarrow> bool" where
  "logic_a link_text = re_search False id_pattern link_text"

definition junk_hit :: "string \<Rightarrow> bool" where
  "junk_hit link_text = list_ex (\<lambda>j. py_in (py_lower j) (py_lower link_text)) junk"

text \<open>The value of \<^verbatim>\<open>is_candidate\<close> when the loop body reaches \<^verbatim>\<open>if is_candidate:\<close>.\<close>

definition is_candidate :: "string \<Rightarrow> bool" where
  "is_candidate link_text =
     (let c = False;
          c = (if logic_a link_text then True else c);
          c = (if junk_hit link_text then False else c);
          c = (if length link_text < 5 then False else c)
      in c)"

text \<open>The loop over the candidates; the state is \<^verbatim>\<open>classes\<close> and \<^verbatim>\<open>seen_names\<close>.\<close>

fun process_links :: "node list \<Rightarrow> string list \<times> string set \<Rightarrow> string list \<times> string set" where
  "process_links [] st = st"
| "process_links (link # links) (classes, seen_names) =
     (let link_text = normalize (get_text link)
      in if is_candidate link_text \<and> link_text \<notin> seen_names
         then process_links links (classes @ [link_text], insert link_text seen_names)
         else process_links links (classes, seen_names))"

text \<open>Step 3 of the source, from empty \<^verbatim>\<open>classes\<close> and \<^verbatim>\<open>seen_names\<close>.\<close>

definition process_candidates :: "node list \<Rightarrow> string list" where
  "process_candidates candidate_links = fst (process_links candidate_links ([], {}))"

text \<open>\<^verbatim>\<open>_legacy_extract\<close>: both of its paths return the empty list.\<close>

definition legacy_extract :: "node list \<Rightarrow> string list" where
  "legacy_extract soup =
     (let text = normalize (soup_get_text soup)
      in if \<not> py_in ''Aktuelle Veranstaltungen:'' text then [] else [])"

text \<open>\<^verbatim>\<open>extract_current_classes\<close>, on the parsed document.\<close>

definition extract_from_soup :: "node list \<Rightarrow> string list" where
  "extract_from_soup soup =
     (case scan_patterns target_patterns (find_all_headers soup) of
        None \<Rightarrow>
          (if py_in ''Aktuelle Veranstaltungen'' (soup_get_text soup)
           then legacy_extract soup else [])
      | Some start_node \<Rightarrow>
          process_candidates (collect_links (find_all_next soup (fst start_node)) []))"

text \<open>
  The spec's words for the result order: of each distinct text the first occurrence
  is kept, in the order of the first occurrences.
\<close>

fun first_occurrences :: "'a list \<Rightarrow> 'a list" where
  "first_occurrences [] = []"
| "first_occurrences (x # xs) = x # first_occurrences (removeAll x xs)"

text \<open>
  The spec's words for Logic A: a numeric token is a maximal run of digits, and the
  text has an identifier token when one of its numeric tokens has four to six digits.
\<close>

function digit_runs :: "string \<Rightarrow> string list" where
  "digit_runs [] = []"
| "digit_runs (c # cs) =
     (if py_isdigit c then takeWhile py_isdigit (c # cs) # digit_runs (dropWhile py_isdigit cs)
      else digit_runs cs)"
  by pat_completeness auto
termination
  by (relation "measure length") (auto simp: less_Suc_eq_le length_dropWhile_le)

definition has_id_token :: "string \<Rightarrow> bool" where
  "has_id_token t = list_ex (\<lambda>r. 4 \<le> length r \<and> length r \<le> 6) (digit_runs t)"

text \<open>
  The spec's words for letter casing: two texts are the same up to case when they
  differ only in the case of the letters \<^verbatim>\<open>A\<close> to \<^verbatim>\<open>Z\<close>.
\<close>

definition ascii_fold_char :: "char \<Rightarrow> char" where
  "ascii_fold_char c =
     (let n = (of_char c :: nat) in if 65 \<le> n \<and> n \<le> 90 then char_of (n + 32) else c)"

definition same_up_to_case :: "string \<Rightarrow> string \<Rightarrow> bool" where
  "same_up_to_case t u = (map ascii_fold_char t = map ascii_fold_char u)"


section \<open>The browser session\<close>

text \<open>
  The browser driver, the wait helper, the one-time-password generator, the file
  system, the HTTP fetch of the base class and the HTML parser are collaborators.
  Their behaviour is a parameter: a record of functions on a world \<open>'w\<close>, each giving
  the value or the exception of a call together with the world after the call.
\<close>

datatype by_kind = ById | ByName | ByCss | ByPartialLinkText

type_synonym element = nat

text \<open>An exception raised by a collaborator, with its message \<^verbatim>\<open>str(e)\<close>.\<close>

datatype ext_exn = NoSuchElement string | OtherError string

text \<open>
  The exceptions of a run: \<open>PyException msg\<close> is \<^verbatim>\<open>raise Exception(msg)\<close> of the source,
  \<open>NoneAttribute a\<close> the \<^verbatim>\<open>AttributeError\<close> of \<^verbatim>\<open>self.driver.a\<close> while \<^verbatim>\<open>self.driver\<close>
  is \<^verbatim>\<open>None\<close>, \<open>TimeoutException\<close> the one a wait raises at its timeout, and
  \<open>External e\<close> an exception raised inside a collaborator. \<open>exn_str\<close> is \<^verbatim>\<open>str(e)\<close>.
\<close>

datatype exn =
    PyException string
  | NoneAttribute string
  | TimeoutException
  | External ext_exn

fun exn_str :: "exn \<Rightarrow> string" where
  "exn_str (PyException msg) = msg"
| "exn_str (NoneAttribute a) =
     [CHR 0x27] @ ''NoneType'' @ [CHR 0x27] @ '' object has no attribute '' @ [CHR 0x27] @ a @ [CHR 0x27]"
| "exn_str TimeoutException = ''Message: '' @ [CHR 0x0A]"
| "exn_str (External (NoSuchElement msg)) = msg"
| "exn_str (External (OtherError msg)) = msg"

record 'w browser =
  b_setup_driver :: "bool \<Rightarrow> 'w \<Rightarrow> (ext_exn + unit) \<times> bool \<times> 'w"
  b_get :: "string \<Rightarrow> 'w \<Rightarrow> (ext_exn + unit) \<times> 'w"
  b_current_url :: "'w \<Rightarrow> (ext_exn + string) \<times> 'w"
  b_page_source :: "'w \<Rightarrow> (ext_exn + string) \<times> 'w"
  b_find_element :: "by_kind \<Rightarrow> string \<Rightarrow> 'w \<Rightarrow> (ext_exn + element) \<times> 'w"
  b_is_displayed :: "element \<Rightarrow> 'w \<Rightarrow> (ext_exn + bool) \<times> 'w"
  b_click :: "element \<Rightarrow> 'w \<Rightarrow> (ext_exn + unit) \<times> 'w"
  b_clear :: "element \<Rightarrow> 'w \<Rightarrow> (ext_exn + unit) \<times> 'w"
  b_send_keys :: "element \<Rightarrow> string \<Rightarrow> 'w \<Rightarrow> (ext_exn + unit) \<times> 'w"
  b_submit :: "element \<Rightarrow> 'w \<Rightarrow> (ext_exn + unit) \<times> 'w"
  b_save_screenshot :: "string \<Rightarrow> 'w \<Rightarrow> (ext_exn + unit) \<times> 'w"
  b_quit :: "'w \<Rightarrow> (ext_exn + unit) \<times> 'w"
  b_polls :: nat
  b_sleep :: "'w \<Rightarrow> 'w"
  b_wait_ignores :: "ext_exn \<Rightarrow> bool"
  b_totp_now :: "string \<Rightarrow> 'w \<Rightarrow> (ext_exn + string) \<times> 'w"
  b_debug_dir :: string
  b_timestamp :: "'w \<Rightarrow> string"
  b_open_file :: "string \<Rightarrow> 'w \<Rightarrow> (ext_exn + unit) \<times> 'w"
  b_write_file :: "string \<Rightarrow> string \<Rightarrow> 'w \<Rightarrow> (ext_exn + unit) \<times> 'w"
  b_fetch_page :: "string \<Rightarrow> 'w \<Rightarrow> (ext_exn + string option) \<times> 'w"
  b_parse :: "string \<Rightarrow> node list"

text \<open>
  \<open>b_setup_driver\<close> is \<^verbatim>\<open>BossScraper._setup_driver\<close>: from whether a driver exists it
  gives whether one exists afterwards. \<open>b_polls\<close> is the number of further polls that
  fit into the timeout of \<^verbatim>\<open>self.wait\<close>, \<open>b_sleep\<close> the pause between two polls and
  \<open>b_wait_ignores\<close> the exceptions the wait ignores. \<open>b_debug_dir\<close> is the constant
  \<^verbatim>\<open>DEBUG_DIR\<close> of \<^verbatim>\<open>app.utils.webdriver_utils\<close>, \<open>b_timestamp\<close> the formatted clock
  \<^verbatim>\<open>datetime.now().strftime("%Y%m%d_%H%M%S")\<close>, \<open>b_fetch_page\<close> is
  \<^verbatim>\<open>BossScraper._fetch_page_via_requests\<close> and \<open>b_parse\<close> is
  \<^verbatim>\<open>BeautifulSoup(html, 'html.parser')\<close>.
\<close>

text \<open>The actions on the browser and the file system, recorded as they are called.\<close>

datatype event =
    EvGet string
  | EvClick element
  | EvClear element
  | EvSendKeys element string
  | EvSubmit element
  | EvScreenshot string
  | EvOpenFile string
  | EvWriteFile string string
  | EvQuit

text \<open>
  The state of the scraper object: the world, whether \<^verbatim>\<open>self.driver\<close> is set, and the
  actions so far, oldest first.
\<close>

record 'w session =
  world :: 'w
  has_driver :: bool
  trace :: "event list"

record creds =
  username :: string
  password :: string
  totp_secret :: "string option"

datatype result = Success "string list" | Failure string

text \<open>
  \<open>Success names\<close> is \<^verbatim>\<open>{"success": True, "current_classes": [{"name": n} for n in names]}\<close>
  and \<open>Failure msg\<close> is \<^verbatim>\<open>{"success": False, "error": msg}\<close>.
\<close>

type_synonym ('w, 'a) prog = "'w session \<Rightarrow> (exn + 'a) \<times> 'w session"

definition py_return :: "'a \<Rightarrow> ('w, 'a) prog" where
  "py_return x s = (Inr x, s)"

definition py_raise :: "exn \<Rightarrow> ('w, 'a) prog" where
  "py_raise e s = (Inl e, s)"

definition then_do :: "('w, 'a) prog \<Rightarrow> ('a \<Rightarrow> ('w, 'b) prog) \<Rightarrow> ('w, 'b) prog" where
  "then_do m f s = (case m s of (Inl e, s1) \<Rightarrow> (Inl e, s1) | (Inr x, s1) \<Rightarrow> f x s1)"

text \<open>\<^verbatim>\<open>try: m except: h\<close>; every exception of the model is an \<^verbatim>\<open>Exception\<close>.\<close>

definition py_try :: "('w, 'a) prog \<Rightarrow> (exn \<Rightarrow> ('w, 'a) prog) \<Rightarrow> ('w, 'a) prog" where
  "py_try m h s = (case m s of (Inl e, s1) \<Rightarrow> h e s1 | (Inr x, s1) \<Rightarrow> (Inr x, s1))"

text \<open>\<^verbatim>\<open>a or b\<close> and \<^verbatim>\<open>a and b\<close> on truth values, the right side run only when needed.\<close>

definition py_or :: "('w, bool) prog \<Rightarrow> ('w, bool) prog \<Rightarrow> ('w, bool) prog" where
  "py_or a b = then_do a (\<lambda>x. if x then py_return True else b)"

definition py_and :: "('w, bool) prog \<Rightarrow> ('w, bool) prog \<Rightarrow> ('w, bool) prog" where
  "py_and a b = then_do a (\<lambda>x. if x then b else py_return False)"

text \<open>A call of a method or property \<open>attr\<close> of \<^verbatim>\<open>self.driver\<close>.\<close>

definition drv_call ::
  "string \<Rightarrow> event list \<Rightarrow> ('w \<Rightarrow> (ext_exn + 'a) \<times> 'w) \<Rightarrow> ('w, 'a) prog" where
  "drv_call attr evs f s =
     (if has_driver s
      then (case f (world s) of
              (r, w) \<Rightarrow> (map_sum External id r, s\<lparr>world := w, trace := trace s @ evs\<rparr>))
      else (Inl (NoneAttribute attr), s))"

text \<open>A call of a method of an element, or of another collaborator.\<close>

definition env_call :: "event list \<Rightarrow> ('w \<Rightarrow> (ext_exn + 'a) \<times> 'w) \<Rightarrow> ('w, 'a) prog" where
  "env_call evs f s =
     (case f (world s) of
        (r, w) \<Rightarrow> (map_sum External id r, s\<lparr>world := w, trace := trace s @ evs\<rparr>))"

definition drv_get :: "'w browser \<Rightarrow> string \<Rightarrow> ('w, unit) prog" where
  "drv_get b url = drv_call ''get'' [EvGet url] (b_get b url)"

definition drv_current_url :: "'w browser \<Rightarrow> ('w, string) prog" where
  "drv_current_url b = drv_call ''current_url'' [] (b_current_url b)"

definition drv_page_source :: "'w browser \<Rightarrow> ('w, string) prog" where
  "drv_page_source b = drv_call ''page_source'' [] (b_page_source b)"

definition drv_find_element :: "'w browser \<Rightarrow> by_kind \<Rightarrow> string \<Rightarrow> ('w, element) prog" where
  "drv_find_element b k v = drv_call ''find_element'' [] (b_find_element b k v)"

definition drv_save_screenshot :: "'w browser \<Rightarrow> string \<Rightarrow> ('w, unit) prog" where
  "drv_save_screenshot b path = drv_call ''save_screenshot'' [EvScreenshot path] (b_save_screenshot b path)"

definition drv_quit :: "'w browser \<Rightarrow> ('w, unit) prog" where
  "drv_quit b = drv_call ''quit'' [EvQuit] (b_quit b)"

definition el_is_displayed :: "'w browser \<Rightarrow> element \<Rightarrow> ('w, bool) prog" where
  "el_is_displayed b el = env_call [] (b_is_displayed b el)"

definition el_click :: "'w browser \<Rightarrow> element \<Rightarrow> ('w, unit) prog" where
  "el_click b el = env_call [EvClick el] (b_click b el)"

definition el_clear :: "'w browser \<Rightarrow> element \<Rightarrow> ('w, unit) prog" where
  "el_clear b el = env_call [EvClear el] (b_clear b el)"

definition el_send_keys :: "'w browser \<Rightarrow> element \<Rightarrow> string \<Rightarrow> ('w, unit) prog" where
  "el_send_keys b el keys = env_call [EvSendKeys el keys] (b_send_keys b el keys)"

definition el_submit :: "'w browser \<Rightarrow> element \<Rightarrow> ('w, unit) prog" where
  "el_submit b el = env_call [EvSubmit el] (b_submit b el)"

text \<open>Whether the URL, the page, or the page in lower case contains a text.\<close>

definition url_has :: "'w browser \<Rightarrow> string \<Rightarrow> ('w, bool) prog" where
  "url_has b sub = then_do (drv_current_url b) (\<lambda>u. py_return (py_in sub u))"

definition src_has :: "'w browser \<Rightarrow> string \<Rightarrow> ('w, bool) prog" where
  "src_has b sub = then_do (drv_page_source b) (\<lambda>p. py_return (py_in sub p))"

definition src_lower_has :: "'w browser \<Rightarrow> string \<Rightarrow> ('w, bool) prog" where
  "src_lower_has b sub = then_do (drv_page_source b) (\<lambda>p. py_return (py_in sub (py_lower p)))"

text \<open>
  \<^verbatim>\<open>self.wait.until(cond)\<close>, the wait of the base class on \<^verbatim>\<open>self.driver\<close>: poll the
  condition; return when it holds, pass on an exception that the wait does not ignore,
  otherwise pause and poll again until the timeout, then raise \<^verbatim>\<open>TimeoutException\<close>.
  The argument \<open>n\<close> counts the polls left.
\<close>

fun until_loop :: "'w browser \<Rightarrow> ('w, bool) prog \<Rightarrow> nat \<Rightarrow> ('w, unit) prog" where
  "until_loop b cond 0 s =
     (case cond s of
        (Inr True, s1) \<Rightarrow> (Inr (), s1)
      | (Inr False, s1) \<Rightarrow> (Inl TimeoutException, s1)
      | (Inl (External e), s1) \<Rightarrow>
          if b_wait_ignores b e then (Inl TimeoutException, s1) else (Inl (External e), s1)
      | (Inl e, s1) \<Rightarrow> (Inl e, s1))"
| "until_loop b cond (Suc n) s =
     (case cond s of
        (Inr True, s1) \<Rightarrow> (Inr (), s1)
      | (Inr False, s1) \<Rightarrow> until_loop b cond n (s1\<lparr>world := b_sleep b (world s1)\<rparr>)
      | (Inl (External e), s1) \<Rightarrow>
          if b_wait_ignores b e then until_loop b cond n (s1\<lparr>world := b_sleep b (world s1)\<rparr>)
          else (Inl (External e), s1)
      | (Inl e, s1) \<Rightarrow> (Inl e, s1))"

definition wait_until :: "'w browser \<Rightarrow> ('w, bool) prog \<Rightarrow> ('w, unit) prog" where
  "wait_until b cond = until_loop b cond (b_polls b)"

section \<open>Login\<close>

definition lsf_url :: string where
  "lsf_url = ''https://www.lsf.tu-dortmund.de/qisserver/rds?state=wscheck&wscheck=leistungen&navigationPosition=functions%2CmyLecturesWScheck&breadcrumb=myLectures&topitem=functions&subitem=myLecturesWScheck''"

text \<open>
  The loop of the source that tries locator strategies in order and takes the first
  element that is found and displayed; an exception of a lookup or of
  \<^verbatim>\<open>is_displayed\<close> moves on to the next strategy. The source writes this loop out for
  the user field, the password field, the submit button and the token field.
\<close>

fun resolve :: "'w browser \<Rightarrow> (by_kind \<times> string) list \<Rightarrow> 'w session \<Rightarrow> element option \<times> 'w session" where
  "resolve b [] s = (None, s)"
| "resolve b (strategy # rest) s =
     (case drv_find_element b (fst strategy) (snd strategy) s of
        (Inl e, s1) \<Rightarrow> resolve b rest s1
      | (Inr el, s1) \<Rightarrow>
          (case el_is_displayed b el s1 of
             (Inl e, s2) \<Rightarrow> resolve b rest s2
           | (Inr True, s2) \<Rightarrow> (Some el, s2)
           | (Inr False, s2) \<Rightarrow> resolve b rest s2))"

definition resolve_prog :: "'w browser \<Rightarrow> (by_kind \<times> string) list \<Rightarrow> ('w, element option) prog" where
  "resolve_prog b strategies s = (case resolve b strategies s of (r, s1) \<Rightarrow> (Inr r, s1))"

definition user_strategies :: "(by_kind \<times> string) list" where
  "user_strategies =
     [(ById, ''username''), (ByName, ''j_username''), (ByCss, ''input#idToken1''),
      (ByCss, ''input[type='' @ [CHR 0x27] @ ''text'' @ [CHR 0x27] @ '']'')]"

definition pass_strategies :: "(by_kind \<times> string) list" where
  "pass_strategies =
     [(ById, ''password''), (ByName, ''j_password''), (ByCss, ''input#idToken2''),
      (ByCss, ''input[type='' @ [CHR 0x27] @ ''password'' @ [CHR 0x27] @ '']'')]"

definition submit_strategies :: "(by_kind \<times> string) list" where
  "submit_strategies =
     [(ByName, ''_eventId_proceed''), (ById, ''loginButton_0''),
      (ByCss, ''button[type='' @ [CHR 0x27] @ ''submit'' @ [CHR 0x27] @ '']''),
      (ByCss, ''input[type='' @ [CHR 0x27] @ ''submit'' @ [CHR 0x27] @ '']'')]"

definition token_strategies :: "(by_kind \<times> string) list" where
  "token_strategies =
     [(ById, ''token''), (ByName, ''otp''),
      (ByCss, ''input[inputmode='' @ [CHR 0x27] @ ''numeric'' @ [CHR 0x27] @ '']'')]"

text \<open>\<^verbatim>\<open>os.path.join(a, b)\<close> with the separator \<^verbatim>\<open>/\<close>.\<close>

definition path_join :: "string \<Rightarrow> string \<Rightarrow> string" where
  "path_join a p =
     (if p \<noteq> [] \<and> hd p = CHR ''/'' then p
      else if a = [] \<or> last a = CHR ''/'' then a @ p
      else a @ ''/'' @ p)"

text \<open>
  The calls inside the \<^verbatim>\<open>try\<close> block of \<^verbatim>\<open>_dump_debug_info\<close>, once the path is
  computed: the screenshot, then the page written to a file.
\<close>

definition save_debug_files :: "'w browser \<Rightarrow> string \<Rightarrow> ('w, unit) prog" where
  "save_debug_files b base_path =
     then_do (drv_save_screenshot b (base_path @ ''.png'')) (\<lambda>_.
     then_do (env_call [EvOpenFile (base_path @ ''.html'')]
                (b_open_file b (base_path @ ''.html''))) (\<lambda>_.
     then_do (drv_page_source b) (\<lambda>src.
     env_call [EvWriteFile (base_path @ ''.html'') src]
       (b_write_file b (base_path @ ''.html'') src))))"

text \<open>
  \<^verbatim>\<open>_dump_debug_info(prefix)\<close>: nothing without a driver; otherwise the calls above
  with every exception caught. It returns no value.
\<close>

definition dump_debug_info :: "'w browser \<Rightarrow> string \<Rightarrow> ('w, unit) prog" where
  "dump_debug_info b pfx s =
     (if \<not> has_driver s then (Inr (), s)
      else
        (let timestamp = b_timestamp b (world s);
             base_path = path_join (b_debug_dir b) (pfx @ ''_'' @ timestamp)
         in py_try (save_debug_files b base_path) (\<lambda>e. py_return ()) s))"

text \<open>Step 5 of the injection, inside its own \<^verbatim>\<open>try ... except: pass\<close>.\<close>

definition handle_2fa :: "'w browser \<Rightarrow> creds \<Rightarrow> ('w, unit) prog" where
  "handle_2fa b cr =
     py_try
       (then_do (wait_until b
                   (py_or (src_lower_has b ''token'')
                      (py_or (src_lower_has b ''otp'') (url_has b ''lsf.tu-dortmund.de'')))) (\<lambda>_.
        then_do (py_or (src_lower_has b ''token'') (src_lower_has b ''otp'')) (\<lambda>indicator.
        case (if indicator then totp_secret cr else None) of
          None \<Rightarrow> py_return ()
        | Some secret \<Rightarrow>
            if secret = [] then py_return ()
            else
              then_do (env_call [] (b_totp_now b secret)) (\<lambda>token.
              then_do (resolve_prog b token_strategies) (\<lambda>token_field.
              case token_field of
                None \<Rightarrow> py_return ()
              | Some tf \<Rightarrow>
                  then_do (el_send_keys b tf token) (\<lambda>_.
                  py_try (then_do (drv_find_element b ByName ''_eventId_proceed'') (el_click b))
                    (\<lambda>e. then_do (drv_find_element b ByCss
                                     (''button[type='' @ [CHR 0x27] @ ''submit'' @ [CHR 0x27] @ '']''))
                            (el_click b))))))))
       (\<lambda>e. py_return ())"

text \<open>The \<^verbatim>\<open>try\<close> block of \<^verbatim>\<open>_inject_sso_credentials\<close>.\<close>

definition inject_body :: "'w browser \<Rightarrow> creds \<Rightarrow> ('w, bool) prog" where
  "inject_body b cr =
     then_do (wait_until b
                (py_or (url_has b ''sso.itmc'') (url_has b ''lsf.tu-dortmund.de''))) (\<lambda>_.
     then_do (py_and (url_has b ''lsf.tu-dortmund.de'') (src_has b ''Abmelden'')) (\<lambda>resumed.
     if resumed then py_return True
     else
       then_do (resolve_prog b user_strategies) (\<lambda>user_field.
       case user_field of
         None \<Rightarrow>
           then_do (dump_debug_info b ''lsf_login_no_user'') (\<lambda>_.
           py_raise (PyException ''Username field not found''))
       | Some uf \<Rightarrow>
           then_do (el_clear b uf) (\<lambda>_.
           then_do (el_send_keys b uf (username cr)) (\<lambda>_.
           then_do (resolve_prog b pass_strategies) (\<lambda>pass_field.
           case pass_field of
             None \<Rightarrow> py_raise (PyException ''Password field not found'')
           | Some pf \<Rightarrow>
               then_do (el_clear b pf) (\<lambda>_.
               then_do (el_send_keys b pf (password cr)) (\<lambda>_.
               then_do (resolve_prog b submit_strategies) (\<lambda>submit_btn.
               then_do (case submit_btn of Some sb \<Rightarrow> el_click b sb | None \<Rightarrow> el_submit b pf) (\<lambda>_.
               then_do (handle_2fa b cr) (\<lambda>_.
               then_do (wait_until b (url_has b ''lsf.tu-dortmund.de'')) (\<lambda>_.
               py_return True))))))))))))"

text \<open>\<^verbatim>\<open>_inject_sso_credentials\<close>: the block above, and its \<^verbatim>\<open>except Exception\<close>.\<close>

definition inject_sso_credentials :: "'w browser \<Rightarrow> creds \<Rightarrow> ('w, bool) prog" where
  "inject_sso_credentials b cr =
     py_try (inject_body b cr)
       (\<lambda>e. then_do (dump_debug_info b ''lsf_injection_fail'') (\<lambda>_. py_return False))"

text \<open>The loop of \<^verbatim>\<open>login\<close> over the link texts: the first lookup that does not raise.\<close>

fun find_login_btn :: "'w browser \<Rightarrow> string list \<Rightarrow> 'w session \<Rightarrow> element option \<times> 'w session" where
  "find_login_btn b [] s = (None, s)"
| "find_login_btn b (text # rest) s =
     (case drv_find_element b ByPartialLinkText text s of
        (Inl e, s1) \<Rightarrow> find_login_btn b rest s1
      | (Inr el, s1) \<Rightarrow> (Some el, s1))"

text \<open>
  \<^verbatim>\<open>login\<close> up to its last line: the navigation, the tolerated wait, the check for a
  resumed session (the value \<open>True\<close>: \<^verbatim>\<open>login\<close> returns \<^verbatim>\<open>True\<close> at once) and the
  search for a login link.
\<close>

definition login_prelude :: "'w browser \<Rightarrow> ('w, bool) prog" where
  "login_prelude b =
     then_do (drv_get b lsf_url) (\<lambda>_.
     then_do (py_try
                (wait_until b
                   (py_or (url_has b ''sso.itmc'')
                      (py_or (src_has b ''Abmelden'')
                         (py_or (src_has b ''Anmelden'') (src_has b ''Login'')))))
                (\<lambda>e. py_return ())) (\<lambda>_.
     then_do (drv_current_url b) (\<lambda>current_url.
     then_do (drv_page_source b) (\<lambda>page_source.
     if py_in ''lsf.tu-dortmund.de'' current_url \<and> py_in ''Abmelden'' page_source
     then py_return True
     else if py_in ''sso.itmc'' current_url then py_return False
     else
       then_do (py_try
                  (\<lambda>s. case find_login_btn b [''Anmelden'', ''Login'', ''Einloggen''] s of
                          (Some login_btn, s1) \<Rightarrow> el_click b login_btn s1
                        | (None, s1) \<Rightarrow> (Inr (), s1))
                  (\<lambda>e. py_return ())) (\<lambda>_.
       py_return False)))))"

definition login :: "'w browser \<Rightarrow> creds \<Rightarrow> ('w, bool) prog" where
  "login b cr =
     then_do (login_prelude b) (\<lambda>resumed.
     if resumed then py_return True else inject_sso_credentials b cr)"

section \<open>The top-level operation\<close>

definition setup_driver :: "'w browser \<Rightarrow> ('w, unit) prog" where
  "setup_driver b s =
     (case b_setup_driver b (has_driver s) (world s) of
        (r, d, w) \<Rightarrow> (map_sum External id r, s\<lparr>world := w, has_driver := d\<rparr>))"

definition extract_current_classes :: "'w browser \<Rightarrow> string \<Rightarrow> string list" where
  "extract_current_classes b html_content = extract_from_soup (b_parse b html_content)"

text \<open>
  The \<^verbatim>\<open>try\<close> block of \<^verbatim>\<open>get_current_classes\<close> up to the page: \<open>None\<close> when the login
  failed, else the HTML of the lectures page.
\<close>

definition fetch_lectures_html :: "'w browser \<Rightarrow> creds \<Rightarrow> ('w, string option) prog" where
  "fetch_lectures_html b cr =
     then_do (setup_driver b) (\<lambda>_.
     then_do (login b cr) (\<lambda>logged_in.
     if \<not> logged_in then py_return None
     else
       then_do (url_has b ''state=wscheck'') (\<lambda>on_page.
       then_do (if \<not> on_page then drv_get b lsf_url else py_return ()) (\<lambda>_.
       then_do (env_call [] (b_fetch_page b lsf_url)) (\<lambda>html.
       if html = None \<or> html = Some []
       then then_do (drv_page_source b) (\<lambda>src. py_return (Some src))
       else py_return html)))))"

definition try_block :: "'w browser \<Rightarrow> creds \<Rightarrow> ('w, result) prog" where
  "try_block b cr =
     then_do (fetch_lectures_html b cr) (\<lambda>html.
     case html of
       None \<Rightarrow> py_return (Failure ''Login failed'')
     | Some h \<Rightarrow> py_return (Success (extract_current_classes b h)))"

text \<open>
  \<^verbatim>\<open>get_current_classes\<close>: the block, its \<^verbatim>\<open>except Exception\<close>, and the \<^verbatim>\<open>finally\<close>
  clause, whose exception (of \<^verbatim>\<open>quit\<close>) replaces the value returned.
\<close>

definition get_current_classes :: "'w browser \<Rightarrow> creds \<Rightarrow> ('w, result) prog" where
  "get_current_classes b cr s =
     (case py_try (try_block b cr) (\<lambda>e. py_return (Failure (exn_str e))) s of
        (r, s1) \<Rightarrow>
          if has_driver s1
          then (case drv_quit b s1 of (Inl e, s2) \<Rightarrow> (Inl e, s2) | (Inr u, s2) \<Rightarrow> (r, s2))
          else (r, s1))"

section \<open>Notions for the statements about sessions\<close>

text \<open>A program that leaves \<^verbatim>\<open>self.driver\<close> as it is.\<close>

definition keeps_driver :: "('w, 'a) prog \<Rightarrow> bool" where
  "keeps_driver m = (\<forall>s. has_driver (snd (m s)) = has_driver s)"

text \<open>A program that never raises an exception written as \<^verbatim>\<open>raise Exception(msg)\<close>.\<close>

definition no_py_exn :: "('w, 'a) prog \<Rightarrow> bool" where
  "no_py_exn m = (\<forall>s e s1. m s = (Inl e, s1) \<longrightarrow> (\<forall>msg. e \<noteq> PyException msg))"

text \<open>
  A set \<open>A\<close> of worlds in which the session is authenticated, and stays so: in each
  of them the navigation to the lectures page succeeds, the URL read is on the portal
  domain and the page read shows the marker ``Abmelden'', and each of these calls
  leads to a world of \<open>A\<close> again.
\<close>

definition authenticated_session :: "'w browser \<Rightarrow> 'w set \<Rightarrow> bool" where
  "authenticated_session b A =
     (\<forall>w\<in>A.
        (\<exists>w1\<in>A. b_get b lsf_url w = (Inr (), w1)) \<and>
        (\<exists>u. \<exists>w1\<in>A. b_current_url b w = (Inr u, w1) \<and> py_in ''lsf.tu-dortmund.de'' u) \<and>
        (\<exists>p. \<exists>w1\<in>A. b_page_source b w = (Inr p, w1) \<and> py_in ''Abmelden'' p))"

section \<open>Example browsers\<close>

text \<open>
  A browser that stays on the login page of the identity provider, where a user field
  is found and no password field.
\<close>

definition sso_without_password :: "unit browser" where
  "sso_without_password =
     \<lparr>b_setup_driver = (\<lambda>d w. (Inr (), True, w)),
      b_get = (\<lambda>url w. (Inr (), w)),
      b_current_url = (\<lambda>w. (Inr ''https://sso.itmc.tu-dortmund.de/openam/UI/Login'', w)),
      b_page_source = (\<lambda>w. (Inr ''<html>Login</html>'', w)),
      b_find_element =
        (\<lambda>k v w. (if k = ById \<and> v = ''username'' then Inr 1 else Inl (NoSuchElement v), w)),
      b_is_displayed = (\<lambda>el w. (Inr True, w)),
      b_click = (\<lambda>el w. (Inr (), w)),
      b_clear = (\<lambda>el w. (Inr (), w)),
      b_send_keys = (\<lambda>el keys w. (Inr (), w)),
      b_submit = (\<lambda>el w. (Inr (), w)),
      b_save_screenshot = (\<lambda>path w. (Inr (), w)),
      b_quit = (\<lambda>w. (Inr (), w)),
      b_polls = 2,
      b_sleep = (\<lambda>w. w),
      b_wait_ignores = (\<lambda>e. case e of NoSuchElement msg \<Rightarrow> True | OtherError msg \<Rightarrow> False),
      b_totp_now = (\<lambda>secret w. (Inr ''123456'', w)),
      b_debug_dir = ''debug'',
      b_timestamp = (\<lambda>w. ''20260101_120000''),
      b_open_file = (\<lambda>path w. (Inr (), w)),
      b_write_file = (\<lambda>path content w. (Inr (), w)),
      b_fetch_page = (\<lambda>url w. (Inr None, w)),
      b_parse = (\<lambda>html. [Tag ''html'' [] [Text html]])\<rparr>"

text \<open>
  A browser whose session is logged in to the portal; its page parses to a header that
  names no term, followed by an anchor.
\<close>

definition portal_logged_in :: "unit browser" where
  "portal_logged_in =
     sso_without_password
       \<lparr>b_current_url := (\<lambda>w. (Inr lsf_url, w)),
        b_page_source := (\<lambda>w. (Inr ''<html><a>Abmelden</a></html>'', w)),
        b_parse := (\<lambda>html. [Tag ''div'' [''Leistungen_Inhalt''] [Text ''Notenspiegel''],
                            Tag ''a'' [] [Text ''Algorithmen 12345'']])\<rparr>"

text \<open>The logged-in browser, with a \<^verbatim>\<open>quit\<close> that raises.\<close>

definition portal_quit_fails :: "unit browser" where
  "portal_quit_fails =
     portal_logged_in\<lparr>b_quit := (\<lambda>w. (Inl (OtherError ''invalid session id''), w))\<rparr>"

text \<open>A browser whose navigation fails.\<close>

definition browser_down :: "unit browser" where
  "browser_down =
     sso_without_password\<lparr>b_get := (\<lambda>url w. (Inl (OtherError ''net::ERR_CONNECTION_REFUSED''), w))\<rparr>"

definition student :: creds where
  "student = \<lparr>username = ''smmuster'', password = ''geheim'', totp_secret = None\<rparr>"

definition fresh :: "unit session" where
  "fresh = \<lparr>world = (), has_driver = False, trace = []\<rparr>"

section \<open>Example documents\<close>

text \<open>The markup of the end-to-end scenario of the spec.\<close>

definition scenario :: "node list" where
  "scenario =
     [Tag ''div'' [''Leistungen_Inhalt''] [Text ''Wintersemester 2025/26''],
      Tag ''a'' [] [Text ''Algorithmen 12345''],
      Tag ''a'' [] [Text ''Raum 101''],
      Tag ''a'' [] [Text ''Grundlagen der Informatik 54321''],
      Tag ''div'' [''Leistungen_Inhalt''] [Text ''Sommersemester 2025'']]"

text \<open>The scenario inside a page, with a text before it and an anchor after it.\<close>

definition scenario_page :: "node list" where
  "scenario_page =
     [Tag ''html'' []
        [Tag ''body'' []
           (Text ''Meine Veranstaltungen'' # scenario @ [Tag ''a'' [] [Text ''Analysis 67890'']])]]"

text \<open>
  Three headers with an anchor before the second, two after it (one of them nested),
  one inside the third and one after the third.
\<close>

definition three_headers :: "node list" where
  "three_headers =
     [Tag ''div'' [''Leistungen_Inhalt''] [Text ''Sommersemester 2025''],
      Tag ''a'' [] [Text ''Vorher 11111''],
      Tag ''div'' [''Leistungen_Inhalt''] [Text ''Wintersemester 2025/26''],
      Tag ''a'' [] [Text ''Algorithmen 12345''],
      Tag ''p'' [] [Tag ''a'' [] [Text ''Logik 23456'']],
      Tag ''div'' [''Leistungen_Inhalt''] [Text ''Sommersemester 2026'', Tag ''a'' [] [Text ''Innen 33333'']],
      Tag ''a'' [] [Text ''Nachher 44444'']]"

text \<open>A header that names no term, then a term header in another letter case.\<close>

definition mixed_case_headers :: "node list" where
  "mixed_case_headers =
     [Tag ''div'' [''Leistungen_Inhalt''] [Text ''Notenspiegel''],
      Tag ''div'' [''Leistungen_Inhalt''] [Text ''wintersemester 2025/26'']]"

definition mixed_case_generic :: "node list" where
  "mixed_case_generic =
     [Tag ''div'' [''Leistungen_Inhalt''] [Text ''Notenspiegel''],
      Tag ''div'' [''Leistungen_Inhalt''] [Text ''SOMMERsemester 2024'']]"


section \<open>Properties of the text primitives and the patterns\<close>

subsection \<open>Lower case keeps whitespace, digits and matches\<close>

lemma of_char_lower:
  "(of_char (py_lower_char c) :: nat) =
     (if (65 \<le> (of_char c :: nat) \<and> (of_char c :: nat) \<le> 90) \<or>
         (192 \<le> (of_char c :: nat) \<and> (of_char c :: nat) \<le> 222 \<and> (of_char c :: nat) \<noteq> 215)
      then of_char c + 32 else of_char c)"
  by (auto simp: py_lower_char_def Let_def)

lemma py_lower_char_idem: "py_lower_char (py_lower_char c) = py_lower_char c"
proof -
  have "(of_char (py_lower_char (py_lower_char c)) :: nat) = of_char (py_lower_char c)"
    by (simp add: of_char_lower)
  then show ?thesis by (metis char_of_char)
qed

lemma py_isspace_lower: "py_isspace (py_lower_char c) = py_isspace c"
proof -
  define n where "n = (of_char c :: nat)"
  have "(n + 32 \<in> {9, 10, 11, 12, 13, 28, 29, 30, 31, 32, 133, 160 :: nat}) =
        (n \<in> {9, 10, 11, 12, 13, 28, 29, 30, 31, 32, 133, 160 :: nat})"
    if "(65 \<le> n \<and> n \<le> 90) \<or> (192 \<le> n \<and> n \<le> 222 \<and> n \<noteq> 215)"
    using that by simp arith
  then show ?thesis
    unfolding py_isspace_def of_char_lower n_def by simp
qed

lemma py_isdigit_lower: "py_isdigit (py_lower_char c) = py_isdigit c"
  by (auto simp: py_isdigit_def of_char_lower)

lemma rmatch_lower: "rmatch True r (py_lower s) = map py_lower (rmatch True r s)"
proof (induction "True" r s rule: rmatch.induct)
  case (1 p s)
  have a: "py_lower (take (length p) (py_lower s)) = py_lower (take (length p) s)"
    by (simp add: py_lower_def take_map py_lower_char_idem)
  have b: "drop (length p) (py_lower s) = py_lower (drop (length p) s)"
    by (simp add: py_lower_def drop_map)
  have c: "length (py_lower s) = length s"
    by (simp add: py_lower_def)
  show ?case
    by (simp only: rmatch.simps(1) Let_def a b c if_True) simp
next
  case (2 s)
  show ?case by (cases s) (simp_all add: rmatch.simps py_lower_def py_isspace_lower)
next
  case (3 s)
  show ?case by (cases s) (simp_all add: rmatch.simps py_lower_def py_isdigit_lower)
next
  case (4 a b s)
  have "concat (map (rmatch True b) (map py_lower (rmatch True a s))) =
        concat (map (\<lambda>t. map py_lower (rmatch True b t)) (rmatch True a s))"
    using 4(2) by (simp add: map_concat comp_def cong: map_cong)
  then show ?case using 4(1) by (simp add: rmatch.simps(4) map_concat comp_def)
next
  case (5 a b s)
  then show ?case by (simp add: rmatch.simps(5))
next
  case (6 a s)
  let ?keep = "filter (\<lambda>t. length t < length s) (rmatch True a s)"
  have len: "length (py_lower s) = length s" by (simp add: py_lower_def)
  have f: "filter (\<lambda>t. length t < length (py_lower s)) (rmatch True a (py_lower s)) = map py_lower ?keep"
    using 6(1) by (simp add: filter_map comp_def py_lower_def)
  have "map (\<lambda>t. rmatch True (Star a) (py_lower t)) ?keep =
        map (\<lambda>t. map py_lower (rmatch True (Star a) t)) ?keep"
    by (rule map_cong [OF refl]) (use 6(2) in auto)
  then have "concat (map (rmatch True (Star a)) (map py_lower ?keep)) =
        concat (map (\<lambda>t. map py_lower (rmatch True (Star a) t)) ?keep)"
    by (simp only: map_map comp_def)
  then show ?case
    by (simp only: rmatch.simps(6) [of True a "py_lower s"] rmatch.simps(6) [of True a s] f)
       (simp add: map_concat comp_def)
next
  case (7 a s)
  then show ?case by (simp add: rmatch.simps(7))
next
  case (8 a s)
  show ?case by (simp add: rmatch.simps(8))
next
  case (9 n a s)
  have "concat (map (rmatch True (Rep 0 n a)) (map py_lower (rmatch True a s))) =
        concat (map (\<lambda>t. map py_lower (rmatch True (Rep 0 n a) t)) (rmatch True a s))"
    using 9(2) by (simp add: comp_def cong: map_cong)
  then show ?case using 9(1) by (simp add: rmatch.simps(9) map_concat comp_def)
next
  case (10 m a s)
  show ?case by (simp add: rmatch.simps(10))
next
  case (11 m n a s)
  have "concat (map (rmatch True (Rep m n a)) (map py_lower (rmatch True a s))) =
        concat (map (\<lambda>t. map py_lower (rmatch True (Rep m n a) t)) (rmatch True a s))"
    using 11(2) by (simp add: comp_def cong: map_cong)
  then show ?case using 11(1) by (simp add: rmatch.simps(11) map_concat comp_def)
qed

lemma re_search_lower: "re_search True r (py_lower s) = re_search True r s"
proof (induction s)
  case Nil
  show ?case using rmatch_lower [of r "[]"] by (simp add: py_lower_def)
next
  case (Cons c cs)
  have "rmatch True r (py_lower (c # cs)) = map py_lower (rmatch True r (c # cs))"
    by (rule rmatch_lower)
  then have "(rmatch True r (py_lower_char c # py_lower cs) = []) = (rmatch True r (c # cs) = [])"
    by (simp add: py_lower_def)
  with Cons show ?case by (simp add: py_lower_def)
qed

subsection \<open>The identifier pattern\<close>

text \<open>A repetition of \<^verbatim>\<open>\d\<close> leaves the text after each admissible number of digits.\<close>

lemma rmatch_Rep_Dig:
  "set (rmatch ic (Rep m n Dig) s) =
     {drop k s | k. m \<le> k \<and> k \<le> n \<and> k \<le> length s \<and> (\<forall>c\<in>set (take k s). py_isdigit c)}"
proof (induction n arbitrary: m s)
  case 0
  show ?case by (cases m) (auto simp: rmatch.simps)
next
  case (Suc n)
  show ?case
  proof (cases s)
    case Nil
    then show ?thesis by (cases m) (auto simp: rmatch.simps)
  next
    case (Cons c cs)
    show ?thesis
    proof (cases "py_isdigit c")
      case False
      with Cons show ?thesis
        by (cases m) (auto simp: rmatch.simps take_Cons' split: if_splits)
    next
      case True
      show ?thesis
      proof (cases m)
        case 0
        have "set (rmatch ic (Rep 0 (Suc n) Dig) s) = insert s (set (rmatch ic (Rep 0 n Dig) cs))"
          using Cons True by (simp add: rmatch.simps)
        also have "\<dots> = insert s {drop k cs | k. k \<le> n \<and> k \<le> length cs \<and> (\<forall>c\<in>set (take k cs). py_isdigit c)}"
          by (simp add: Suc.IH)
        also have "\<dots> = {drop k s | k. k \<le> Suc n \<and> k \<le> length s \<and> (\<forall>c\<in>set (take k s). py_isdigit c)}"
          (is "?L = ?R")
        proof
          show "?L \<subseteq> ?R"
          proof
            fix x assume "x \<in> ?L"
            then consider "x = s" | k where "x = drop k cs" "k \<le> n" "k \<le> length cs" "\<forall>c\<in>set (take k cs). py_isdigit c"
              by auto
            then show "x \<in> ?R"
            proof cases
              case 1
              then have "x = drop 0 s \<and> 0 \<le> Suc n \<and> 0 \<le> length s \<and> (\<forall>c\<in>set (take 0 s). py_isdigit c)" by simp
              then show ?thesis by blast
            next
              case 2
              then have "x = drop (Suc k) s \<and> Suc k \<le> Suc n \<and> Suc k \<le> length s \<and> (\<forall>c\<in>set (take (Suc k) s). py_isdigit c)"
                using Cons True by simp
              then show ?thesis by blast
            qed
          qed
          show "?R \<subseteq> ?L"
          proof
            fix x assume "x \<in> ?R"
            then obtain k where k: "x = drop k s" "k \<le> Suc n" "k \<le> length s" "\<forall>c\<in>set (take k s). py_isdigit c"
              by auto
            show "x \<in> ?L"
            proof (cases k)
              case 0
              with k show ?thesis by simp
            next
              case (Suc j)
              with k Cons have "x = drop j cs \<and> j \<le> n \<and> j \<le> length cs \<and> (\<forall>c\<in>set (take j cs). py_isdigit c)"
                by simp
              then show ?thesis by blast
            qed
          qed
        qed
        finally show ?thesis using 0 by simp
      next
        case (Suc m')
        have "set (rmatch ic (Rep (Suc m') (Suc n) Dig) s) = set (rmatch ic (Rep m' n Dig) cs)"
          using Cons True by (simp add: rmatch.simps)
        also have "\<dots> = {drop k cs | k. m' \<le> k \<and> k \<le> n \<and> k \<le> length cs \<and> (\<forall>c\<in>set (take k cs). py_isdigit c)}"
          by (simp add: Suc.IH)
        also have "\<dots> = {drop k s | k. Suc m' \<le> k \<and> k \<le> Suc n \<and> k \<le> length s \<and> (\<forall>c\<in>set (take k s). py_isdigit c)}"
          (is "?L = ?R")
        proof
          show "?L \<subseteq> ?R"
          proof
            fix x assume "x \<in> ?L"
            then obtain k where "x = drop k cs" "m' \<le> k" "k \<le> n" "k \<le> length cs" "\<forall>c\<in>set (take k cs). py_isdigit c"
              by auto
            then have "x = drop (Suc k) s \<and> Suc m' \<le> Suc k \<and> Suc k \<le> Suc n \<and> Suc k \<le> length s \<and> (\<forall>c\<in>set (take (Suc k) s). py_isdigit c)"
              using Cons True by simp
            then show "x \<in> ?R" by blast
          qed
          show "?R \<subseteq> ?L"
          proof
            fix x assume "x \<in> ?R"
            then obtain k where k: "x = drop k s" "Suc m' \<le> k" "k \<le> Suc n" "k \<le> length s" "\<forall>c\<in>set (take k s). py_isdigit c"
              by auto
            then obtain j where j: "k = Suc j" by (cases k) auto
            with k Cons have "x = drop j cs \<and> m' \<le> j \<and> j \<le> n \<and> j \<le> length cs \<and> (\<forall>c\<in>set (take j cs). py_isdigit c)"
              by simp
            then show "x \<in> ?L" by blast
          qed
        qed
        finally show ?thesis using Suc by simp
      qed
    qed
  qed
qed

lemma re_search_iff: "re_search ic r s \<longleftrightarrow> (\<exists>i\<le>length s. rmatch ic r (drop i s) \<noteq> [])"
proof (induction s)
  case Nil
  show ?case by simp
next
  case (Cons c cs)
  have "(\<exists>i\<le>length (c # cs). rmatch ic r (drop i (c # cs)) \<noteq> []) \<longleftrightarrow>
        rmatch ic r (c # cs) \<noteq> [] \<or> (\<exists>i\<le>length cs. rmatch ic r (drop i cs) \<noteq> [])"
    (is "?A \<longleftrightarrow> ?B \<or> ?C")
  proof
    assume ?A
    then obtain i where i: "i \<le> length (c # cs)" "rmatch ic r (drop i (c # cs)) \<noteq> []" by blast
    show "?B \<or> ?C"
    proof (cases i)
      case 0
      with i show ?thesis by simp
    next
      case (Suc j)
      with i have "j \<le> length cs \<and> rmatch ic r (drop j cs) \<noteq> []" by simp
      then show ?thesis by blast
    qed
  next
    assume "?B \<or> ?C"
    then show ?A
    proof
      assume ?B
      then have "0 \<le> length (c # cs) \<and> rmatch ic r (drop 0 (c # cs)) \<noteq> []" by simp
      then show ?A by blast
    next
      assume ?C
      then obtain j where "j \<le> length cs" "rmatch ic r (drop j cs) \<noteq> []" by blast
      then have "Suc j \<le> length (c # cs) \<and> rmatch ic r (drop (Suc j) (c # cs)) \<noteq> []" by simp
      then show ?A by blast
    qed
  qed
  with Cons show ?case by simp
qed

lemma logic_a_iff:
  "logic_a t \<longleftrightarrow>
     (\<exists>pre mid post. t = pre @ mid @ post \<and> 4 \<le> length mid \<and> length mid \<le> 6 \<and>
        (\<forall>c\<in>set mid. py_isdigit c))"
proof
  assume "logic_a t"
  then obtain i where i: "i \<le> length t" "set (rmatch False (Rep 4 6 Dig) (drop i t)) \<noteq> {}"
    by (auto simp: logic_a_def id_pattern_def re_search_iff)
  then obtain k where k: "4 \<le> k" "k \<le> 6" "k \<le> length (drop i t)"
      "\<forall>c\<in>set (take k (drop i t)). py_isdigit c"
    unfolding rmatch_Rep_Dig by blast
  have "t = take i t @ take k (drop i t) @ drop k (drop i t)"
    by (simp only: append_take_drop_id)
  moreover have "length (take k (drop i t)) = k" using k(3) by simp
  ultimately show "\<exists>pre mid post. t = pre @ mid @ post \<and> 4 \<le> length mid \<and> length mid \<le> 6 \<and>
        (\<forall>c\<in>set mid. py_isdigit c)"
    using k by metis
next
  assume "\<exists>pre mid post. t = pre @ mid @ post \<and> 4 \<le> length mid \<and> length mid \<le> 6 \<and>
        (\<forall>c\<in>set mid. py_isdigit c)"
  then obtain pre mid post where p: "t = pre @ mid @ post" "4 \<le> length mid" "length mid \<le> 6"
      "\<forall>c\<in>set mid. py_isdigit c" by blast
  have d: "drop (length pre) t = mid @ post" using p by simp
  have "post = drop (length mid) (mid @ post) \<and> 4 \<le> length mid \<and> length mid \<le> 6 \<and>
        length mid \<le> length (mid @ post) \<and> (\<forall>c\<in>set (take (length mid) (mid @ post)). py_isdigit c)"
    using p by simp
  then have "post \<in> set (rmatch False (Rep 4 6 Dig) (mid @ post))"
    unfolding rmatch_Rep_Dig by blast
  then have "rmatch False (Rep 4 6 Dig) (drop (length pre) t) \<noteq> []"
    unfolding d by auto
  moreover have "length pre \<le> length t" using p by simp
  ultimately show "logic_a t"
    unfolding logic_a_def id_pattern_def re_search_iff by blast
qed

text \<open>The upper bound of the quantifier has no effect on the search.\<close>

lemma logic_a_four: "logic_a t = re_search False (Rep 4 4 Dig) t"
proof -
  have "rmatch False (Rep 4 6 Dig) s \<noteq> [] \<longleftrightarrow> rmatch False (Rep 4 4 Dig) s \<noteq> []" for s
  proof -
    have a: "set (rmatch False (Rep 4 6 Dig) s) \<noteq> {} \<longleftrightarrow>
       (\<exists>k. 4 \<le> k \<and> k \<le> 6 \<and> k \<le> length s \<and> (\<forall>c\<in>set (take k s). py_isdigit c))"
      unfolding rmatch_Rep_Dig by blast
    have b: "set (rmatch False (Rep 4 4 Dig) s) \<noteq> {} \<longleftrightarrow>
       (\<exists>k. 4 \<le> k \<and> k \<le> 4 \<and> k \<le> length s \<and> (\<forall>c\<in>set (take k s). py_isdigit c))"
      unfolding rmatch_Rep_Dig by blast
    have "(\<exists>k. 4 \<le> k \<and> k \<le> 6 \<and> k \<le> length s \<and> (\<forall>c\<in>set (take k s). py_isdigit c)) \<longleftrightarrow>
          (\<exists>k. 4 \<le> k \<and> k \<le> 4 \<and> k \<le> length s \<and> (\<forall>c\<in>set (take k s). py_isdigit c))"
      (is "?L \<longleftrightarrow> ?R")
    proof
      assume ?L
      then obtain k where k: "4 \<le> k" "k \<le> length s" "\<forall>c\<in>set (take k s). py_isdigit c" by blast
      have "set (take 4 s) \<subseteq> set (take k s)" using k(1) by (rule set_take_subset_set_take)
      with k have "(4::nat) \<le> 4 \<and> (4::nat) \<le> 4 \<and> 4 \<le> length s \<and> (\<forall>c\<in>set (take 4 s). py_isdigit c)"
        by auto
      then show ?R by blast
    next
      assume ?R
      then show ?L by auto
    qed
    with a b show ?thesis by simp
  qed
  then show ?thesis
    by (simp add: logic_a_def id_pattern_def re_search_iff)
qed

text \<open>A text with an identifier token is marked.\<close>

lemma digit_runs_pieces:
  "r \<in> set (digit_runs t) \<Longrightarrow> \<exists>pre post. t = pre @ r @ post \<and> (\<forall>c\<in>set r. py_isdigit c)"
proof (induction t rule: digit_runs.induct)
  case 1
  then show ?case by simp
next
  case (2 c cs)
  show ?case
  proof (cases "py_isdigit c")
    case False
    with 2 obtain pre post where "cs = pre @ r @ post" "\<forall>c\<in>set r. py_isdigit c" by auto
    then have "c # cs = (c # pre) @ r @ post \<and> (\<forall>c\<in>set r. py_isdigit c)" by simp
    then show ?thesis by blast
  next
    case True
    with "2.prems" consider "r = takeWhile py_isdigit (c # cs)"
      | "r \<in> set (digit_runs (dropWhile py_isdigit cs))" by auto
    then show ?thesis
    proof cases
      case 1
      have "c # cs = [] @ takeWhile py_isdigit (c # cs) @ dropWhile py_isdigit (c # cs)"
        by (simp only: append_Nil takeWhile_dropWhile_id)
      moreover have "\<forall>x\<in>set (takeWhile py_isdigit (c # cs)). py_isdigit x"
        by (auto dest: set_takeWhileD)
      ultimately show ?thesis unfolding 1 by blast
    next
      case b: 2
      with 2 True obtain pre post where
        p: "dropWhile py_isdigit cs = pre @ r @ post" "\<forall>c\<in>set r. py_isdigit c" by auto
      have "c # cs = (c # takeWhile py_isdigit cs) @ dropWhile py_isdigit cs" by simp
      then have "c # cs = (c # takeWhile py_isdigit cs @ pre) @ r @ post" using p(1) by simp
      with p(2) show ?thesis by blast
    qed
  qed
qed

lemma id_token_marked: "has_id_token t \<Longrightarrow> logic_a t"
proof -
  assume "has_id_token t"
  then obtain r where r: "r \<in> set (digit_runs t)" "4 \<le> length r" "length r \<le> 6"
    by (auto simp: has_id_token_def list_ex_iff)
  from digit_runs_pieces [OF r(1)] r(2,3) show "logic_a t"
    unfolding logic_a_iff by blast
qed

subsection \<open>Only the letter case is ignored\<close>

lemma py_lower_ascii_fold: "py_lower_char (ascii_fold_char c) = py_lower_char c"
proof -
  have "(of_char (py_lower_char (ascii_fold_char c)) :: nat) = of_char (py_lower_char c)"
    by (simp add: of_char_lower ascii_fold_char_def Let_def)
  then show ?thesis by (metis char_of_char)
qed

lemma same_up_to_case_lower: "same_up_to_case t u \<Longrightarrow> py_lower t = py_lower u"
proof -
  assume "same_up_to_case t u"
  then have "map py_lower_char (map ascii_fold_char t) = map py_lower_char (map ascii_fold_char u)"
    by (simp add: same_up_to_case_def)
  then show ?thesis by (simp add: py_lower_def comp_def py_lower_ascii_fold)
qed

lemma rmatch_case_subset: "set (rmatch False r s) \<subseteq> set (rmatch True r s)"
proof (induction "False" r s rule: rmatch.induct)
  case (1 p s)
  show ?case by (auto simp: rmatch.simps(1) Let_def)
next
  case (2 s)
  show ?case by (simp add: rmatch.simps(2))
next
  case (3 s)
  show ?case by (simp add: rmatch.simps(3))
next
  case (4 a b s)
  then show ?case by (fastforce simp: rmatch.simps(4))
next
  case (5 a b s)
  then show ?case by (auto simp: rmatch.simps(5))
next
  case (6 a s)
  show ?case
  proof
    fix x assume "x \<in> set (rmatch False (Star a) s)"
    then consider "x = s"
      | t where "t \<in> set (rmatch False a s)" "length t < length s" "x \<in> set (rmatch False (Star a) t)"
      by (subst (asm) rmatch.simps(6)) auto
    then show "x \<in> set (rmatch True (Star a) s)"
    proof cases
      case 1
      then show ?thesis by (subst rmatch.simps(6)) simp
    next
      case 2
      with 6 have "t \<in> set (rmatch True a s)" "x \<in> set (rmatch True (Star a) t)" by auto
      with 2(2) show ?thesis by (subst rmatch.simps(6)) auto
    qed
  qed
next
  case (7 a s)
  then show ?case by (auto simp: rmatch.simps(7))
next
  case (8 a s)
  show ?case by (simp add: rmatch.simps(8))
next
  case (9 n a s)
  then show ?case by (fastforce simp: rmatch.simps(9))
next
  case (10 m a s)
  show ?case by (simp add: rmatch.simps(10))
next
  case (11 m n a s)
  then show ?case by (fastforce simp: rmatch.simps(11))
qed

lemma re_search_case: "re_search False p s \<Longrightarrow> re_search True p s"
  unfolding re_search_iff using rmatch_case_subset [of p] by (metis empty_subsetI set_empty subset_antisym)

lemma recased_matches:
  assumes "same_up_to_case t u" and "re_search False p u"
  shows "re_search True p t"
proof -
  from assms(2) have "re_search True p u" by (rule re_search_case)
  then have "re_search True p (py_lower u)" by (simp add: re_search_lower)
  then have "re_search True p (py_lower t)" using same_up_to_case_lower [OF assms(1)] by simp
  then show ?thesis by (simp add: re_search_lower)
qed

lemma py_in_sublist: "py_in sub s = sublist sub s"
  by (induction s) (simp_all add: sublist_Cons_right)

lemma rmatch_suffix: "x \<in> set (rmatch ic r s) \<Longrightarrow> suffix x s"
proof (induction ic r s arbitrary: x rule: rmatch.induct)
  case (1 ic p s)
  then show ?case by (auto simp: rmatch.simps(1) Let_def suffix_drop split: if_splits)
next
  case (2 ic s)
  then show ?case by (cases s) (auto simp: rmatch.simps(2) suffix_Cons split: if_splits)
next
  case (3 ic s)
  then show ?case by (cases s) (auto simp: rmatch.simps(3) suffix_Cons split: if_splits)
next
  case (4 ic a b s)
  from 4(3) obtain u where u: "u \<in> set (rmatch ic a s)" "x \<in> set (rmatch ic b u)"
    by (auto simp: rmatch.simps(4))
  from 4(1) [OF u(1)] 4(2) [OF u(1) u(2)] show ?case by (rule suffix_order.trans [rotated])
next
  case (5 ic a b s)
  then show ?case by (auto simp: rmatch.simps(5))
next
  case (6 ic a s)
  from 6(3) consider "x = s"
    | t where "t \<in> set (rmatch ic a s)" "length t < length s" "x \<in> set (rmatch ic (Star a) t)"
    by (subst (asm) rmatch.simps(6)) auto
  then show ?case
  proof cases
    case 1
    then show ?thesis by simp
  next
    case 2
    have "suffix t s" using 6(1) [OF 2(1)] .
    moreover have "suffix x t" using 6(2) [of t x] 2 by simp
    ultimately show ?thesis by (rule suffix_order.trans [rotated])
  qed
next
  case (7 ic a s)
  then show ?case by (auto simp: rmatch.simps(7))
next
  case (8 ic a s)
  then show ?case by (simp add: rmatch.simps(8))
next
  case (9 ic n a s)
  from 9(3) consider "x = s"
    | u where "u \<in> set (rmatch ic a s)" "x \<in> set (rmatch ic (Rep 0 n a) u)"
    by (auto simp: rmatch.simps(9))
  then show ?case
  proof cases
    case 1
    then show ?thesis by simp
  next
    case 2
    from 9(1) [OF 2(1)] 9(2) [OF 2(1) 2(2)] show ?thesis by (rule suffix_order.trans [rotated])
  qed
next
  case (10 ic m a s)
  then show ?case by (simp add: rmatch.simps(10))
next
  case (11 ic m n a s)
  from 11(3) obtain u where u: "u \<in> set (rmatch ic a s)" "x \<in> set (rmatch ic (Rep m n a) u)"
    by (auto simp: rmatch.simps(11))
  from 11(1) [OF u(1)] 11(2) [OF u(1) u(2)] show ?case by (rule suffix_order.trans [rotated])
qed

lemma rmatch_Cat_nonempty:
  "rmatch ic (Cat a b) s \<noteq> [] \<longleftrightarrow> (\<exists>u\<in>set (rmatch ic a s). rmatch ic b u \<noteq> [])"
  by (auto simp: rmatch.simps(4))

lemma lower_char_below_letters:
  assumes "py_lower_char c = d" and "(of_char d :: nat) < 65"
  shows "c = d"
proof -
  have "(of_char (py_lower_char c) :: nat) < 65" using assms by simp
  then have "(of_char (py_lower_char c) :: nat) = of_char c"
    by (simp add: of_char_lower split: if_splits)
  then have "py_lower_char c = c" by (metis char_of_char)
  with assms show ?thesis by simp
qed

lemma lower_eq_below_letters:
  assumes "py_lower x = py_lower d" and "\<forall>c\<in>set d. (of_char c :: nat) < 65"
  shows "x = d"
proof -
  have ld: "py_lower d = d"
  proof -
    have "py_lower_char c = c" if "c \<in> set d" for c
    proof -
      from that assms(2) have "(of_char c :: nat) < 65" by simp
      then have "(of_char (py_lower_char c) :: nat) = of_char c"
        by (simp add: of_char_lower)
      then show ?thesis by (metis char_of_char)
    qed
    then show ?thesis by (simp add: py_lower_def map_idI)
  qed
  from assms(1) ld have "map py_lower_char x = d" by (simp add: py_lower_def)
  then have "list_all2 (\<lambda>a b. py_lower_char a = b) x d"
    by (auto simp: list_all2_conv_all_nth)
  then have "list_all2 (=) x d"
    using assms(2)
    by (induction rule: list_all2_induct) (auto intro: lower_char_below_letters)
  then show ?thesis by (simp add: list.rel_eq)
qed

lemma exact_needs_digits:
  assumes "re_search True exact_pattern t"
  shows "py_in ''2025/26'' t"
proof -
  from assms obtain i where "rmatch True exact_pattern (drop i t) \<noteq> []"
    unfolding re_search_iff by blast
  then obtain u v where
    u: "u \<in> set (rmatch True (Str ''Wintersemester'') (drop i t))" and
    v: "v \<in> set (rmatch True (Star WS) u)" and
    d: "rmatch True (Str ''2025/26'') v \<noteq> []"
    unfolding exact_pattern_def rmatch_Cat_nonempty by blast
  have "suffix u t" using rmatch_suffix [OF u] suffix_drop [of i t] by (rule suffix_order.trans)
  with rmatch_suffix [OF v] have sv: "suffix v t" by (rule suffix_order.trans)
  then obtain pre where pre: "t = pre @ v" by (auto simp: suffix_def)
  from d have len: "length ''2025/26'' \<le> length v"
    and low: "py_lower (take (length ''2025/26'') v) = py_lower ''2025/26''"
    by (auto simp: rmatch.simps(1) Let_def split: if_splits)
  have "take (length ''2025/26'') v = ''2025/26''"
    using low by (rule lower_eq_below_letters) simp
  then have "v = ''2025/26'' @ drop (length ''2025/26'') v"
    by (metis append_take_drop_id)
  with pre have "t = pre @ ''2025/26'' @ drop (length ''2025/26'') v" by simp
  then have "sublist ''2025/26'' t" unfolding sublist_def by blast
  then show ?thesis by (simp only: py_in_sublist)
qed

lemma generic_needs_digits:
  assumes "re_search True generic_pattern t"
  shows "\<exists>pre mid post. t = pre @ mid @ post \<and> length mid = 4 \<and> (\<forall>c\<in>set mid. py_isdigit c)"
proof -
  from assms obtain i where "rmatch True generic_pattern (drop i t) \<noteq> []"
    unfolding re_search_iff by blast
  then obtain u where
    u: "u \<in> set (rmatch True (Or (Str ''Wintersemester'') (Str ''Sommersemester'')) (drop i t))" and
    r1: "rmatch True (Cat (Star WS) (Cat (Rep 4 4 Dig) (Opt (Cat (Str ''/'') (Rep 2 2 Dig))))) u \<noteq> []"
    unfolding generic_pattern_def rmatch_Cat_nonempty [of True "Or _ _"] by blast
  from r1 obtain v where
    v: "v \<in> set (rmatch True (Star WS) u)" and
    r2: "rmatch True (Cat (Rep 4 4 Dig) (Opt (Cat (Str ''/'') (Rep 2 2 Dig)))) v \<noteq> []"
    unfolding rmatch_Cat_nonempty [of True "Star WS"] by blast
  from r2 obtain w where "w \<in> set (rmatch True (Rep 4 4 Dig) v)"
    unfolding rmatch_Cat_nonempty [of True "Rep 4 4 Dig"] by blast
  then have d: "set (rmatch True (Rep 4 4 Dig) v) \<noteq> {}" by auto
  have "suffix u t" using rmatch_suffix [OF u] suffix_drop [of i t] by (rule suffix_order.trans)
  with rmatch_suffix [OF v] have sv: "suffix v t" by (rule suffix_order.trans)
  then obtain pre where pre: "t = pre @ v" by (auto simp: suffix_def)
  from d have "4 \<le> length v" "\<forall>c\<in>set (take 4 v). py_isdigit c"
    unfolding rmatch_Rep_Dig by auto
  then have "t = pre @ take 4 v @ drop 4 v \<and> length (take 4 v) = 4 \<and>
             (\<forall>c\<in>set (take 4 v). py_isdigit c)"
    using pre by simp
  then show ?thesis by blast
qed


section \<open>Properties of the extraction loops\<close>

text \<open>Each loop of the extraction, as a function of the standard library.\<close>

lemma scan_headers_find: "scan_headers p hs = find (\<lambda>h. header_matches p (snd h)) hs"
  by (induction hs) auto

lemma collect_links_eq:
  "collect_links es acc = acc @ filter (\<lambda>e. tag_name e = ''a'') (takeWhile (\<lambda>e. \<not> is_header e) es)"
  by (induction es arbitrary: acc) auto

lemma set_first_occurrences: "set (first_occurrences xs) = set xs"
  by (induction xs rule: first_occurrences.induct) auto

lemma distinct_first_occurrences: "distinct (first_occurrences xs)"
  by (induction xs rule: first_occurrences.induct) (auto simp: set_first_occurrences)

lemma removeAll_filter_conv: "removeAll k (filter P xs) = filter (\<lambda>x. x \<noteq> k \<and> P x) xs"
  by (induction xs) auto

lemma process_links_eq:
  "fst (process_links links (classes, seen)) =
     classes @ first_occurrences
       (filter (\<lambda>t. t \<notin> seen) (filter is_candidate (map (\<lambda>l. normalize (get_text l)) links)))"
proof (induction links arbitrary: classes seen)
  case Nil
  show ?case by simp
next
  case (Cons l links)
  show ?case
    by (simp add: Let_def Cons.IH removeAll_filter_conv conj_ac)
qed

lemma scan_headers_mem: "scan_headers p hs = Some h \<Longrightarrow> h \<in> set hs"
  by (induction hs) (auto split: if_splits)

lemma scan_patterns_mem: "scan_patterns ps hs = Some h \<Longrightarrow> h \<in> set hs"
  by (induction ps) (auto split: option.splits dest: scan_headers_mem)

lemma in_find_all_headers:
  "(i, e) \<in> set (find_all_headers soup) \<longleftrightarrow>
     i < length (soup_tags soup) \<and> soup_tags soup ! i = e \<and> is_header e"
  by (auto simp: find_all_headers_def in_set_enumerate_eq)

lemma scenario_first_header:
  "header_matches exact_pattern (Tag ''div'' [''Leistungen_Inhalt''] [Text ''Wintersemester 2025/26''])"
  by code_simp

lemma scenario_candidates:
  "process_candidates
     [Tag ''a'' [] [Text ''Algorithmen 12345''],
      Tag ''a'' [] [Text ''Raum 101''],
      Tag ''a'' [] [Text ''Grundlagen der Informatik 54321'']] =
   [''Algorithmen 12345'', ''Grundlagen der Informatik 54321'']"
  by code_simp

lemma scenario_noise: "junk_hit (normalize ''Raum 101'') \<and> py_in (py_lower ''Raum'') (py_lower (normalize ''Raum 101''))"
  by code_simp

lemma scan_headers_skip:
  assumes "\<forall>h\<in>set xs. \<not> header_matches p (snd h)"
  shows "scan_headers p (xs @ ys) = scan_headers p ys"
  using assms by (induction xs) auto

lemma find_all_headers_split:
  assumes "soup_tags soup = pre @ h # post" and "is_header h"
  shows "find_all_headers soup =
           filter (\<lambda>(i, e). is_header e) (enumerate 0 pre) @
           (length pre, h) # filter (\<lambda>(i, e). is_header e) (enumerate (Suc (length pre)) post)"
  using assms by (simp add: find_all_headers_def enumerate_append_eq)


lemma scan_headers_first:
  assumes "k < length hs" and "header_matches p (snd (hs ! k))"
      and "\<forall>j<k. \<not> header_matches p (snd (hs ! j))"
  shows "scan_headers p hs = Some (hs ! k)"
  unfolding scan_headers_find find_Some_iff using assms by blast

lemma scan_headers_none:
  "(\<forall>h\<in>set hs. \<not> header_matches p (snd h)) \<Longrightarrow> scan_headers p hs = None"
  unfolding scan_headers_find find_None_iff by blast


section \<open>Properties of the session programs\<close>

subsection \<open>Sequencing\<close>

lemma then_do_Inr: "m s = (Inr x, s1) \<Longrightarrow> then_do m f s = f x s1"
  by (simp add: then_do_def)

lemma then_do_Inl: "m s = (Inl e, s1) \<Longrightarrow> then_do m f s = (Inl e, s1)"
  by (simp add: then_do_def)

subsection \<open>No program but the setup changes the driver\<close>

named_theorems keeps

lemma keeps_driverD: "keeps_driver m \<Longrightarrow> m s = (r, s1) \<Longrightarrow> has_driver s1 = has_driver s"
  unfolding keeps_driver_def by (metis snd_conv)

lemma keeps_return [keeps]: "keeps_driver (py_return x)"
  by (simp add: keeps_driver_def py_return_def)

lemma keeps_raise [keeps]: "keeps_driver (py_raise e)"
  by (simp add: keeps_driver_def py_raise_def)

lemma keeps_then_do [keeps]:
  assumes "keeps_driver m" and "\<And>x. keeps_driver (f x)"
  shows "keeps_driver (then_do m f)"
  unfolding keeps_driver_def
proof
  fix s
  obtain r s1 where m: "m s = (r, s1)" by (cases "m s")
  have d: "has_driver s1 = has_driver s" using keeps_driverD [OF assms(1) m] .
  show "has_driver (snd (then_do m f s)) = has_driver s"
  proof (cases r)
    case (Inl e)
    with m d show ?thesis by (simp add: then_do_def)
  next
    case (Inr x)
    obtain r2 s2 where f: "f x s1 = (r2, s2)" by (cases "f x s1")
    from keeps_driverD [OF assms(2) f] m d Inr f show ?thesis by (simp add: then_do_def)
  qed
qed

lemma keeps_try [keeps]:
  assumes "keeps_driver m" and "\<And>e. keeps_driver (h e)"
  shows "keeps_driver (py_try m h)"
  unfolding keeps_driver_def
proof
  fix s
  obtain r s1 where m: "m s = (r, s1)" by (cases "m s")
  have d: "has_driver s1 = has_driver s" using keeps_driverD [OF assms(1) m] .
  show "has_driver (snd (py_try m h s)) = has_driver s"
  proof (cases r)
    case (Inr x)
    with m d show ?thesis by (simp add: py_try_def)
  next
    case (Inl e)
    obtain r2 s2 where f: "h e s1 = (r2, s2)" by (cases "h e s1")
    from keeps_driverD [OF assms(2) f] m d Inl f show ?thesis by (simp add: py_try_def)
  qed
qed

lemma keeps_if [keeps]:
  "keeps_driver m \<Longrightarrow> keeps_driver n \<Longrightarrow> keeps_driver (if c then m else n)"
  by simp

lemma keeps_case_option [keeps]:
  "keeps_driver m \<Longrightarrow> (\<And>x. keeps_driver (f x)) \<Longrightarrow> keeps_driver (case v of None \<Rightarrow> m | Some x \<Rightarrow> f x)"
  by (cases v) simp_all

lemma keeps_or [keeps]: "keeps_driver a \<Longrightarrow> keeps_driver c \<Longrightarrow> keeps_driver (py_or a c)"
  unfolding py_or_def by (intro keeps)

lemma keeps_and [keeps]: "keeps_driver a \<Longrightarrow> keeps_driver c \<Longrightarrow> keeps_driver (py_and a c)"
  unfolding py_and_def by (intro keeps)

lemma keeps_drv_call [keeps]: "keeps_driver (drv_call a evs f)"
  by (auto simp: keeps_driver_def drv_call_def split: prod.splits)

lemma keeps_env_call [keeps]: "keeps_driver (env_call evs f)"
  by (auto simp: keeps_driver_def env_call_def split: prod.splits)

lemma keeps_prims [keeps]:
  "keeps_driver (drv_get b url)" "keeps_driver (drv_current_url b)" "keeps_driver (drv_page_source b)"
  "keeps_driver (drv_find_element b k v)" "keeps_driver (drv_save_screenshot b path)"
  "keeps_driver (drv_quit b)" "keeps_driver (el_is_displayed b el)" "keeps_driver (el_click b el)"
  "keeps_driver (el_clear b el)" "keeps_driver (el_send_keys b el keys)" "keeps_driver (el_submit b el)"
  "keeps_driver (url_has b sub)" "keeps_driver (src_has b sub)" "keeps_driver (src_lower_has b sub)"
  unfolding drv_get_def drv_current_url_def drv_page_source_def drv_find_element_def
    drv_save_screenshot_def drv_quit_def el_is_displayed_def el_click_def el_clear_def
    el_send_keys_def el_submit_def url_has_def src_has_def src_lower_has_def
  by (intro keeps)+

lemma until_loop_driver:
  assumes "keeps_driver cond"
  shows "has_driver (snd (until_loop b cond n s)) = has_driver s"
proof (induction n arbitrary: s)
  case 0
  obtain r s1 where c: "cond s = (r, s1)" by (cases "cond s")
  from keeps_driverD [OF assms c] c show ?case
    by (auto split: sum.splits bool.splits exn.splits)
next
  case (Suc n)
  obtain r s1 where c: "cond s = (r, s1)" by (cases "cond s")
  from keeps_driverD [OF assms c] c Suc show ?case
    by (auto split: sum.splits bool.splits exn.splits)
qed

lemma keeps_wait_until [keeps]: "keeps_driver cond \<Longrightarrow> keeps_driver (wait_until b cond)"
  by (simp add: keeps_driver_def wait_until_def until_loop_driver)

lemma resolve_driver: "has_driver (snd (resolve b strategies s)) = has_driver s"
proof (induction strategies arbitrary: s)
  case Nil
  show ?case by simp
next
  case (Cons st rest)
  obtain r s1 where f: "drv_find_element b (fst st) (snd st) s = (r, s1)"
    by (cases "drv_find_element b (fst st) (snd st) s")
  have d1: "has_driver s1 = has_driver s" using keeps_driverD [OF keeps_prims(4) f] .
  show ?case
  proof (cases r)
    case (Inl e)
    with f d1 Cons show ?thesis by simp
  next
    case (Inr el)
    obtain r2 s2 where g: "el_is_displayed b el s1 = (r2, s2)" by (cases "el_is_displayed b el s1")
    have d2: "has_driver s2 = has_driver s1" using keeps_driverD [OF keeps_prims(7) g] .
    from f Inr g d1 d2 Cons show ?thesis
      by (auto split: sum.splits bool.splits)
  qed
qed

lemma keeps_resolve_prog [keeps]: "keeps_driver (resolve_prog b strategies)"
  unfolding keeps_driver_def
proof
  fix s :: "'a session"
  obtain r s1 where r: "resolve b strategies s = (r, s1)" by (cases "resolve b strategies s")
  with resolve_driver [of b strategies s]
  show "has_driver (snd (resolve_prog b strategies s)) = has_driver s"
    by (simp add: resolve_prog_def)
qed

lemma keeps_save_debug_files [keeps]: "keeps_driver (save_debug_files b base_path)"
  unfolding save_debug_files_def by (intro keeps)

lemma keeps_dump [keeps]: "keeps_driver (dump_debug_info b pfx)"
  unfolding keeps_driver_def
proof
  fix s :: "'a session"
  let ?m = "py_try (save_debug_files b (path_join (b_debug_dir b) (pfx @ ''_'' @ b_timestamp b (world s))))
              (\<lambda>e. py_return ())"
  have "keeps_driver ?m" by (intro keeps)
  then have "has_driver (snd (?m s)) = has_driver s" by (simp add: keeps_driver_def)
  then show "has_driver (snd (dump_debug_info b pfx s)) = has_driver s"
    by (simp add: dump_debug_info_def Let_def)
qed

lemma keeps_handle_2fa [keeps]: "keeps_driver (handle_2fa b cr)"
  unfolding handle_2fa_def by (intro keeps)

lemma keeps_inject_body [keeps]: "keeps_driver (inject_body b cr)"
  unfolding inject_body_def by (intro keeps)

lemma keeps_inject [keeps]: "keeps_driver (inject_sso_credentials b cr)"
  unfolding inject_sso_credentials_def by (intro keeps)

lemma find_login_btn_driver: "has_driver (snd (find_login_btn b texts s)) = has_driver s"
proof (induction texts arbitrary: s)
  case Nil
  show ?case by simp
next
  case (Cons t rest)
  obtain r s1 where f: "drv_find_element b ByPartialLinkText t s = (r, s1)"
    by (cases "drv_find_element b ByPartialLinkText t s")
  have d1: "has_driver s1 = has_driver s" using keeps_driverD [OF keeps_prims(4) f] .
  from f d1 Cons show ?case by (cases r) simp_all
qed

lemma keeps_login_click [keeps]:
  "keeps_driver (\<lambda>s. case find_login_btn b texts s of
                          (Some login_btn, s1) \<Rightarrow> el_click b login_btn s1
                        | (None, s1) \<Rightarrow> (Inr (), s1))"
  unfolding keeps_driver_def
proof
  fix s :: "'a session"
  obtain r s1 where f: "find_login_btn b texts s = (r, s1)" by (cases "find_login_btn b texts s")
  have d1: "has_driver s1 = has_driver s" using find_login_btn_driver [of b texts s] f by simp
  show "has_driver (snd (case find_login_btn b texts s of
                          (Some login_btn, s1) \<Rightarrow> el_click b login_btn s1
                        | (None, s1) \<Rightarrow> (Inr (), s1))) = has_driver s"
  proof (cases r)
    case None
    with f d1 show ?thesis by simp
  next
    case (Some el)
    obtain r2 s2 where c: "el_click b el s1 = (r2, s2)" by (cases "el_click b el s1")
    from keeps_driverD [OF keeps_prims(8) c] f Some c d1 show ?thesis by simp
  qed
qed

lemma keeps_login_prelude [keeps]: "keeps_driver (login_prelude b)"
  unfolding login_prelude_def by (intro keeps)

lemma keeps_login [keeps]: "keeps_driver (login b cr)"
  unfolding login_def by (intro keeps)

lemma keeps_after_login:
  "keeps_driver
     (\<lambda>s. then_do (login b cr) (\<lambda>logged_in.
     if \<not> logged_in then py_return None
     else
       then_do (url_has b ''state=wscheck'') (\<lambda>on_page.
       then_do (if \<not> on_page then drv_get b lsf_url else py_return ()) (\<lambda>_.
       then_do (env_call [] (b_fetch_page b lsf_url)) (\<lambda>html.
       if html = None \<or> html = Some []
       then then_do (drv_page_source b) (\<lambda>src. py_return (Some src))
       else py_return html)))) s)"
  by (intro keeps)

text \<open>The driver at the exit is the one that setup left.\<close>

lemma try_block_driver:
  "has_driver (snd (py_try (try_block b cr) (\<lambda>e. py_return (Failure (exn_str e))) s)) =
   has_driver (snd (setup_driver b s))"
proof -
  obtain r1 s1 where su: "setup_driver b s = (r1, s1)" by (cases "setup_driver b s")
  show ?thesis
  proof (cases r1)
    case (Inl e)
    with su show ?thesis
      by (simp add: py_try_def try_block_def fetch_lectures_html_def then_do_def py_return_def)
  next
    case (Inr u)
    let ?rest = "\<lambda>s. then_do (login b cr) (\<lambda>logged_in.
     if \<not> logged_in then py_return None
     else
       then_do (url_has b ''state=wscheck'') (\<lambda>on_page.
       then_do (if \<not> on_page then drv_get b lsf_url else py_return ()) (\<lambda>_.
       then_do (env_call [] (b_fetch_page b lsf_url)) (\<lambda>html.
       if html = None \<or> html = Some []
       then then_do (drv_page_source b) (\<lambda>src. py_return (Some src))
       else py_return html)))) s"
    obtain r2 s2 where re: "?rest s1 = (r2, s2)" by (cases "?rest s1")
    have d: "has_driver s2 = has_driver s1" using keeps_driverD [OF keeps_after_login re] .
    have "fetch_lectures_html b cr s = (r2, s2)"
      using su Inr re by (simp add: fetch_lectures_html_def then_do_Inr)
    then have "snd (py_try (try_block b cr) (\<lambda>e. py_return (Failure (exn_str e))) s) = s2"
      by (cases r2) (auto simp: py_try_def try_block_def then_do_def py_return_def split: option.splits)
    with d su show ?thesis by simp
  qed
qed

text \<open>Without a driver the login raises, so a page that was fetched comes with a driver.\<close>

lemma login_no_driver:
  assumes "\<not> has_driver s"
  shows "login b cr s = (Inl (NoneAttribute ''get''), s)"
  using assms
  by (simp add: login_def login_prelude_def then_do_def drv_get_def drv_call_def)

lemma fetched_page_driver:
  assumes "fetch_lectures_html b cr s = (Inr (Some html), s1)"
  shows "has_driver s1"
proof -
  let ?rest = "\<lambda>s. then_do (login b cr) (\<lambda>logged_in.
     if \<not> logged_in then py_return None
     else
       then_do (url_has b ''state=wscheck'') (\<lambda>on_page.
       then_do (if \<not> on_page then drv_get b lsf_url else py_return ()) (\<lambda>_.
       then_do (env_call [] (b_fetch_page b lsf_url)) (\<lambda>html.
       if html = None \<or> html = Some []
       then then_do (drv_page_source b) (\<lambda>src. py_return (Some src))
       else py_return html)))) s"
  obtain r1 sa where su: "setup_driver b s = (r1, sa)" by (cases "setup_driver b s")
  from assms su obtain u where r1: "r1 = Inr u"
    by (cases r1) (simp_all add: fetch_lectures_html_def then_do_def)
  with assms su have rest: "?rest sa = (Inr (Some html), s1)"
    by (simp add: fetch_lectures_html_def then_do_def)
  have d: "has_driver s1 = has_driver sa" using keeps_driverD [OF keeps_after_login rest] .
  show ?thesis
  proof (rule ccontr)
    assume "\<not> has_driver s1"
    with d have "\<not> has_driver sa" by simp
    from login_no_driver [OF this, of b cr] rest show False
      by (simp add: then_do_def)
  qed
qed


subsection \<open>The injection without a driver, and the debug artifact\<close>

lemma until_loop_no_driver:
  assumes "cond s = (Inl (NoneAttribute a), s)"
  shows "until_loop b cond n s = (Inl (NoneAttribute a), s)"
  using assms by (cases n) simp_all

lemma url_has_no_driver:
  "\<not> has_driver s \<Longrightarrow> url_has b sub s = (Inl (NoneAttribute ''current_url''), s)"
  by (simp add: url_has_def then_do_def drv_current_url_def drv_call_def)

lemma inject_body_no_driver:
  assumes "\<not> has_driver s"
  shows "inject_body b cr s = (Inl (NoneAttribute ''current_url''), s)"
proof -
  have "py_or (url_has b ''sso.itmc'') (url_has b ''lsf.tu-dortmund.de'') s =
        (Inl (NoneAttribute ''current_url''), s)"
    using assms by (simp add: py_or_def then_do_def url_has_no_driver)
  then have "wait_until b (py_or (url_has b ''sso.itmc'') (url_has b ''lsf.tu-dortmund.de'')) s =
        (Inl (NoneAttribute ''current_url''), s)"
    unfolding wait_until_def by (rule until_loop_no_driver)
  then show ?thesis
    unfolding inject_body_def by (rule then_do_Inl)
qed

lemma inject_body_raised_driver:
  assumes "inject_body b cr s = (Inl (PyException msg), s1)"
  shows "has_driver s1"
proof (rule ccontr)
  assume "\<not> has_driver s1"
  then have "\<not> has_driver s" using keeps_driverD [OF keeps_inject_body assms] by simp
  from inject_body_no_driver [OF this, of b cr] assms show False by simp
qed

lemma dump_debug_info_attempt:
  assumes "has_driver s"
  shows "\<exists>s1. dump_debug_info b pfx s = (Inr (), s1) \<and> has_driver s1 \<and>
           EvScreenshot (path_join (b_debug_dir b) (pfx @ ''_'' @ b_timestamp b (world s)) @ ''.png'')
             \<in> set (trace s1)"
proof -
  let ?base = "path_join (b_debug_dir b) (pfx @ ''_'' @ b_timestamp b (world s))"
  obtain r w where shot: "b_save_screenshot b (?base @ ''.png'') (world s) = (r, w)"
    by (cases "b_save_screenshot b (?base @ ''.png'') (world s)")
  let ?s1 = "s\<lparr>world := w, trace := trace s @ [EvScreenshot (?base @ ''.png'')]\<rparr>"
  have a: "drv_save_screenshot b (?base @ ''.png'') s = (map_sum External id r, ?s1)"
    using assms shot by (simp add: drv_save_screenshot_def drv_call_def)
  show ?thesis
  proof (cases r)
    case (Inl e)
    with a have "dump_debug_info b pfx s = (Inr (), ?s1)"
      using assms
      by (simp add: dump_debug_info_def Let_def py_try_def save_debug_files_def then_do_def py_return_def)
    then show ?thesis using assms by simp
  next
    case (Inr u)
    let ?rest = "then_do (env_call [EvOpenFile (?base @ ''.html'')]
                (b_open_file b (?base @ ''.html''))) (\<lambda>_.
     then_do (drv_page_source b) (\<lambda>src.
     env_call [EvWriteFile (?base @ ''.html'') src]
       (b_write_file b (?base @ ''.html'') src)))"
    obtain r2 s2 where rest: "?rest ?s1 = (r2, s2)" by (cases "?rest ?s1")
    have tr: "\<exists>evs. trace s2 = trace ?s1 @ evs"
      using rest
      by (auto simp: then_do_def env_call_def drv_page_source_def drv_call_def
               split: prod.splits sum.splits if_splits)
    have k: "keeps_driver ?rest" by (intro keeps)
    have d: "has_driver s2" using keeps_driverD [OF k rest] assms by simp
    have "save_debug_files b ?base s = (r2, s2)"
      using a Inr rest by (simp add: save_debug_files_def then_do_Inr)
    then have "dump_debug_info b pfx s = (Inr (), s2)"
      using assms by (cases r2) (simp_all add: dump_debug_info_def Let_def py_try_def py_return_def)
    with tr d show ?thesis by auto
  qed
qed

subsection \<open>No header, no classes\<close>

lemma extract_without_header:
  "scan_patterns target_patterns (find_all_headers soup) = None \<Longrightarrow> extract_from_soup soup = []"
  by (simp add: extract_from_soup_def legacy_extract_def Let_def)

subsection \<open>Authenticated sessions\<close>

text \<open>In an authenticated world each read succeeds and shows the authenticated state.\<close>

lemma auth_get:
  assumes "authenticated_session b A" "world s \<in> A" "has_driver s"
  obtains s1 where "drv_get b lsf_url s = (Inr (), s1)" "world s1 \<in> A" "has_driver s1"
    "trace s1 = trace s @ [EvGet lsf_url]"
proof -
  from assms obtain w1 where "w1 \<in> A" "b_get b lsf_url (world s) = (Inr (), w1)"
    unfolding authenticated_session_def by blast
  then have "drv_get b lsf_url s = (Inr (), s\<lparr>world := w1, trace := trace s @ [EvGet lsf_url]\<rparr>)"
    using assms(3) by (simp add: drv_get_def drv_call_def)
  with \<open>w1 \<in> A\<close> assms(3) that show thesis by simp
qed

lemma auth_url:
  assumes "authenticated_session b A" "world s \<in> A" "has_driver s"
  obtains u s1 where "drv_current_url b s = (Inr u, s1)" "py_in ''lsf.tu-dortmund.de'' u"
    "world s1 \<in> A" "has_driver s1" "trace s1 = trace s"
proof -
  from assms obtain u w1 where "w1 \<in> A" "b_current_url b (world s) = (Inr u, w1)"
      "py_in ''lsf.tu-dortmund.de'' u"
    unfolding authenticated_session_def by blast
  then have "drv_current_url b s = (Inr u, s\<lparr>world := w1, trace := trace s @ []\<rparr>)"
    using assms(3) by (simp add: drv_current_url_def drv_call_def)
  with \<open>w1 \<in> A\<close> \<open>py_in ''lsf.tu-dortmund.de'' u\<close> assms(3) that show thesis by simp
qed

lemma auth_src:
  assumes "authenticated_session b A" "world s \<in> A" "has_driver s"
  obtains p s1 where "drv_page_source b s = (Inr p, s1)" "py_in ''Abmelden'' p"
    "world s1 \<in> A" "has_driver s1" "trace s1 = trace s"
proof -
  from assms obtain p w1 where "w1 \<in> A" "b_page_source b (world s) = (Inr p, w1)"
      "py_in ''Abmelden'' p"
    unfolding authenticated_session_def by blast
  then have "drv_page_source b s = (Inr p, s\<lparr>world := w1, trace := trace s @ []\<rparr>)"
    using assms(3) by (simp add: drv_page_source_def drv_call_def)
  with \<open>w1 \<in> A\<close> \<open>py_in ''Abmelden'' p\<close> assms(3) that show thesis by simp
qed

lemma until_loop_holds: "cond s = (Inr True, s1) \<Longrightarrow> until_loop b cond n s = (Inr (), s1)"
  by (cases n) simp_all

lemma auth_session_check:
  assumes "authenticated_session b A" "world s \<in> A" "has_driver s"
  obtains s1 where
    "wait_until b (py_or (url_has b ''sso.itmc'')
        (py_or (src_has b ''Abmelden'') (py_or (src_has b ''Anmelden'') (src_has b ''Login'')))) s
      = (Inr (), s1)"
    "world s1 \<in> A" "has_driver s1" "trace s1 = trace s"
proof -
  let ?cond = "py_or (url_has b ''sso.itmc'')
        (py_or (src_has b ''Abmelden'') (py_or (src_has b ''Anmelden'') (src_has b ''Login'')))"
  from auth_url [OF assms] obtain u sa where
    u: "drv_current_url b s = (Inr u, sa)" "world sa \<in> A" "has_driver sa" "trace sa = trace s"
    by blast
  from auth_src [OF assms(1) u(2) u(3)] obtain p sb where
    p: "drv_page_source b sa = (Inr p, sb)" "py_in ''Abmelden'' p" "world sb \<in> A" "has_driver sb"
       "trace sb = trace sa"
    by blast
  have "\<exists>s1. ?cond s = (Inr True, s1) \<and> world s1 \<in> A \<and> has_driver s1 \<and> trace s1 = trace s"
  proof (cases "py_in ''sso.itmc'' u")
    case True
    with u show ?thesis by (simp add: py_or_def url_has_def then_do_def py_return_def)
  next
    case False
    with u p show ?thesis
      by (simp add: py_or_def url_has_def src_has_def then_do_def py_return_def)
  qed
  then obtain s1 where "?cond s = (Inr True, s1)" "world s1 \<in> A" "has_driver s1"
    "trace s1 = trace s" by blast
  with that until_loop_holds [of ?cond s s1 b "b_polls b"] show thesis
    by (simp add: wait_until_def)
qed

lemma login_resumes:
  assumes "authenticated_session b A" "world s \<in> A" "has_driver s"
  shows "\<exists>s1. login b cr s = (Inr True, s1) \<and> world s1 \<in> A \<and> has_driver s1 \<and>
           trace s1 = trace s @ [EvGet lsf_url]"
proof -
  from auth_get [OF assms] obtain sa where
    a: "drv_get b lsf_url s = (Inr (), sa)" "world sa \<in> A" "has_driver sa"
       "trace sa = trace s @ [EvGet lsf_url]" by blast
  from auth_session_check [OF assms(1) a(2) a(3)] obtain sb where
    b: "wait_until b (py_or (url_has b ''sso.itmc'')
        (py_or (src_has b ''Abmelden'') (py_or (src_has b ''Anmelden'') (src_has b ''Login'')))) sa
      = (Inr (), sb)" "world sb \<in> A" "has_driver sb" "trace sb = trace sa" by blast
  from auth_url [OF assms(1) b(2) b(3)] obtain u sc where
    c: "drv_current_url b sb = (Inr u, sc)" "py_in ''lsf.tu-dortmund.de'' u" "world sc \<in> A"
       "has_driver sc" "trace sc = trace sb" by blast
  from auth_src [OF assms(1) c(3) c(4)] obtain p sd where
    d: "drv_page_source b sc = (Inr p, sd)" "py_in ''Abmelden'' p" "world sd \<in> A" "has_driver sd"
       "trace sd = trace sc" by blast
  have "login_prelude b s = (Inr True, sd)"
    using a(1) b(1) c(1,2) d(1,2)
    by (simp add: login_prelude_def then_do_def py_try_def py_return_def)
  then have "login b cr s = (Inr True, sd)"
    by (simp add: login_def then_do_def py_return_def)
  with a b c d show ?thesis by simp
qed

lemma inject_resumes:
  assumes "authenticated_session b A" "world s \<in> A" "has_driver s"
  shows "\<exists>s1. inject_sso_credentials b cr s = (Inr True, s1) \<and> world s1 \<in> A \<and> has_driver s1 \<and>
           trace s1 = trace s"
proof -
  let ?cond = "py_or (url_has b ''sso.itmc'') (url_has b ''lsf.tu-dortmund.de'')"
  from auth_url [OF assms] obtain u sa where
    a: "drv_current_url b s = (Inr u, sa)" "py_in ''lsf.tu-dortmund.de'' u" "world sa \<in> A"
       "has_driver sa" "trace sa = trace s" by blast
  from auth_url [OF assms(1) a(3) a(4)] obtain u2 sb where
    b: "drv_current_url b sa = (Inr u2, sb)" "py_in ''lsf.tu-dortmund.de'' u2" "world sb \<in> A"
       "has_driver sb" "trace sb = trace sa" by blast
  have "\<exists>s1. ?cond s = (Inr True, s1) \<and> world s1 \<in> A \<and> has_driver s1 \<and> trace s1 = trace s"
  proof (cases "py_in ''sso.itmc'' u")
    case True
    with a show ?thesis by (simp add: py_or_def url_has_def then_do_def py_return_def)
  next
    case False
    with a b show ?thesis by (simp add: py_or_def url_has_def then_do_def py_return_def)
  qed
  then obtain sc where c: "?cond s = (Inr True, sc)" "world sc \<in> A" "has_driver sc"
    "trace sc = trace s" by blast
  have w: "wait_until b ?cond s = (Inr (), sc)"
    using until_loop_holds [of ?cond s sc b "b_polls b"] c(1) by (simp add: wait_until_def)
  from auth_url [OF assms(1) c(2) c(3)] obtain u3 sd where
    d: "drv_current_url b sc = (Inr u3, sd)" "py_in ''lsf.tu-dortmund.de'' u3" "world sd \<in> A"
       "has_driver sd" "trace sd = trace sc" by blast
  from auth_src [OF assms(1) d(3) d(4)] obtain p se where
    e: "drv_page_source b sd = (Inr p, se)" "py_in ''Abmelden'' p" "world se \<in> A" "has_driver se"
       "trace se = trace sd" by blast
  have "py_and (url_has b ''lsf.tu-dortmund.de'') (src_has b ''Abmelden'') sc = (Inr True, se)"
    using d e by (simp add: py_and_def url_has_def src_has_def then_do_def py_return_def)
  with w have "inject_body b cr s = (Inr True, se)"
    by (simp add: inject_body_def then_do_def py_return_def)
  then have "inject_sso_credentials b cr s = (Inr True, se)"
    by (simp add: inject_sso_credentials_def py_try_def)
  with c d e show ?thesis by simp
qed

subsection \<open>Where the exception for the password field comes from\<close>

text \<open>
  The exception ``Password field not found'' is raised in exactly one situation: the
  first wait returns, the session is not resumed, a user field is resolved, cleared
  and filled with the user name, and no strategy resolves a password field.
\<close>

lemma password_not_found_raised:
  assumes "wait_until b (py_or (url_has b ''sso.itmc'') (url_has b ''lsf.tu-dortmund.de'')) s =
             (Inr (), sa)"
      and "py_and (url_has b ''lsf.tu-dortmund.de'') (src_has b ''Abmelden'') sa = (Inr False, sb)"
      and "resolve b user_strategies sb = (Some uf, sc)"
      and "el_clear b uf sc = (Inr (), sd)"
      and "el_send_keys b uf (username cr) sd = (Inr (), se)"
      and "resolve b pass_strategies se = (None, sf)"
  shows "inject_body b cr s = (Inl (PyException ''Password field not found''), sf)"
  using assms by (simp add: inject_body_def then_do_def resolve_prog_def py_raise_def)

lemma no_py_exnD: "no_py_exn m \<Longrightarrow> m s = (Inl (PyException msg), s1) \<Longrightarrow> False"
  unfolding no_py_exn_def by blast

lemma no_py_return: "no_py_exn (py_return x)"
  by (simp add: no_py_exn_def py_return_def)

lemma no_py_then_do:
  assumes "no_py_exn m" and "\<And>x. no_py_exn (f x)"
  shows "no_py_exn (then_do m f)"
  unfolding no_py_exn_def
proof (intro allI impI)
  fix s e s1 msg
  assume r: "then_do m f s = (Inl e, s1)"
  obtain r0 s0 where m: "m s = (r0, s0)" by (cases "m s")
  show "e \<noteq> PyException msg"
  proof (cases r0)
    case (Inl e0)
    with m r have "m s = (Inl e, s1)" by (simp add: then_do_def)
    with assms(1) show ?thesis unfolding no_py_exn_def by blast
  next
    case (Inr x)
    with m r have "f x s0 = (Inl e, s1)" by (simp add: then_do_def)
    with assms(2) [of x] show ?thesis unfolding no_py_exn_def by blast
  qed
qed

lemma map_sum_External: "map_sum External id r \<noteq> Inl (PyException msg)"
  by (cases r) simp_all

lemma no_py_drv_call: "no_py_exn (drv_call a evs f)"
  by (auto simp: no_py_exn_def drv_call_def map_sum_External split: prod.splits if_splits)

lemma no_py_env_call: "no_py_exn (env_call evs f)"
  by (auto simp: no_py_exn_def env_call_def map_sum_External split: prod.splits)

lemma no_py_url_has: "no_py_exn (url_has b sub)"
  unfolding url_has_def drv_current_url_def
  by (intro no_py_then_do no_py_drv_call no_py_return)

lemma no_py_src_has: "no_py_exn (src_has b sub)"
  unfolding src_has_def drv_page_source_def
  by (intro no_py_then_do no_py_drv_call no_py_return)

lemma no_py_or: "no_py_exn a \<Longrightarrow> no_py_exn c \<Longrightarrow> no_py_exn (py_or a c)"
  unfolding py_or_def by (intro no_py_then_do) (simp_all add: no_py_return)

lemma no_py_and: "no_py_exn a \<Longrightarrow> no_py_exn c \<Longrightarrow> no_py_exn (py_and a c)"
  unfolding py_and_def by (intro no_py_then_do) (simp_all add: no_py_return)

lemma until_loop_no_py:
  assumes "no_py_exn cond"
  shows "until_loop b cond n s = (Inl e, s1) \<Longrightarrow> e \<noteq> PyException msg"
proof (induction n arbitrary: s)
  case 0
  obtain r s0 where c: "cond s = (r, s0)" by (cases "cond s")
  show ?case
  proof
    assume "e = PyException msg"
    with 0 c have "cond s = (Inl (PyException msg), s1)"
      by (auto split: sum.splits bool.splits exn.splits if_splits)
    with assms show False by (rule no_py_exnD)
  qed
next
  case (Suc n)
  obtain r s0 where c: "cond s = (r, s0)" by (cases "cond s")
  show ?case
  proof
    assume e: "e = PyException msg"
    from Suc.prems c e
    consider "cond s = (Inl (PyException msg), s1)"
      | "until_loop b cond n (s0\<lparr>world := b_sleep b (world s0)\<rparr>) = (Inl e, s1)"
      by (auto split: sum.splits bool.splits exn.splits if_splits)
    then show False
    proof cases
      case 1
      with assms show False by (rule no_py_exnD)
    next
      case 2
      from Suc.IH [OF 2] e show False by simp
    qed
  qed
qed

lemma no_py_wait_until: "no_py_exn cond \<Longrightarrow> no_py_exn (wait_until b cond)"
  unfolding no_py_exn_def wait_until_def using until_loop_no_py unfolding no_py_exn_def by blast

lemma then_do_cases:
  assumes "then_do m f s = (r, s2)"
  obtains (raised) e where "m s = (Inl e, s2)" "r = Inl e"
        | (went_on) x s1 where "m s = (Inr x, s1)" "f x s1 = (r, s2)"
proof -
  obtain r0 s0 where m: "m s = (r0, s0)" by (cases "m s")
  show thesis
  proof (cases r0)
    case (Inl e)
    with m assms raised show ?thesis by (simp add: then_do_def)
  next
    case (Inr x)
    with m assms went_on show ?thesis by (simp add: then_do_def)
  qed
qed

lemma no_py_try:
  assumes "\<And>e. no_py_exn (h e)"
  shows "no_py_exn (py_try m h)"
  unfolding no_py_exn_def
proof (intro allI impI)
  fix s e s1 msg
  assume r: "py_try m h s = (Inl e, s1)"
  obtain r0 s0 where m: "m s = (r0, s0)" by (cases "m s")
  show "e \<noteq> PyException msg"
  proof (cases r0)
    case (Inr x)
    with m r show ?thesis by (simp add: py_try_def)
  next
    case (Inl e0)
    with m r have "h e0 s0 = (Inl e, s1)" by (simp add: py_try_def)
    with assms [of e0] show ?thesis unfolding no_py_exn_def by blast
  qed
qed

lemma no_py_resolve_prog: "no_py_exn (resolve_prog b strategies)"
  by (auto simp: no_py_exn_def resolve_prog_def split: prod.splits)

lemma no_py_handle_2fa: "no_py_exn (handle_2fa b cr)"
  unfolding handle_2fa_def by (intro no_py_try no_py_return)

lemma no_py_after_password:
  "no_py_exn
     (then_do (el_clear b pf) (\<lambda>_.
      then_do (el_send_keys b pf (password cr)) (\<lambda>_.
      then_do (resolve_prog b submit_strategies) (\<lambda>submit_btn.
      then_do (case submit_btn of Some sb \<Rightarrow> el_click b sb | None \<Rightarrow> el_submit b pf) (\<lambda>_.
      then_do (handle_2fa b cr) (\<lambda>_.
      then_do (wait_until b (url_has b ''lsf.tu-dortmund.de'')) (\<lambda>_.
      py_return True)))))))"
proof -
  have c: "no_py_exn (case submit_btn of Some sb \<Rightarrow> el_click b sb | None \<Rightarrow> el_submit b pf)"
    for submit_btn
    by (cases submit_btn) (simp_all add: el_click_def el_submit_def no_py_env_call)
  show ?thesis
    by (intro no_py_then_do no_py_resolve_prog no_py_handle_2fa no_py_wait_until no_py_url_has
          no_py_return c)
       (simp_all add: el_clear_def el_send_keys_def no_py_env_call)
qed

lemma dump_debug_info_returns: "fst (dump_debug_info b pfx s) = Inr ()"
proof (cases "has_driver s")
  case False
  then show ?thesis by (simp add: dump_debug_info_def)
next
  case True
  let ?m = "save_debug_files b (path_join (b_debug_dir b) (pfx @ ''_'' @ b_timestamp b (world s)))"
  obtain r s1 where "?m s = (r, s1)" by (cases "?m s")
  with True show ?thesis
    by (cases r) (simp_all add: dump_debug_info_def Let_def py_try_def py_return_def)
qed

lemma password_not_found_path:
  assumes "inject_body b cr s = (Inl (PyException ''Password field not found''), sf)"
  shows "\<exists>sa sb uf sc sd se.
           wait_until b (py_or (url_has b ''sso.itmc'') (url_has b ''lsf.tu-dortmund.de'')) s =
             (Inr (), sa) \<and>
           py_and (url_has b ''lsf.tu-dortmund.de'') (src_has b ''Abmelden'') sa = (Inr False, sb) \<and>
           resolve b user_strategies sb = (Some uf, sc) \<and>
           el_clear b uf sc = (Inr (), sd) \<and>
           el_send_keys b uf (username cr) sd = (Inr (), se) \<and>
           resolve b pass_strategies se = (None, sf)"
proof -
  let ?P = "PyException ''Password field not found''"
  from assms [unfolded inject_body_def] show ?thesis
  proof (cases rule: then_do_cases)
    case (raised e)
    then have False
      using no_py_exnD [OF no_py_wait_until [OF no_py_or [OF no_py_url_has no_py_url_has]]]
      by blast
    then show ?thesis ..
  next
    case (went_on u sa)
    from went_on(2) show ?thesis
    proof (cases rule: then_do_cases)
      case (raised e)
      then have False
        using no_py_exnD [OF no_py_and [OF no_py_url_has no_py_src_has]] by blast
      then show ?thesis ..
    next
      case step2: (went_on resumed sb)
      have nr: "\<not> resumed"
        using step2(2) by (cases resumed) (simp_all add: py_return_def)
      from step2(2) nr have
        "then_do (resolve_prog b user_strategies) (\<lambda>user_field.
           case user_field of
             None \<Rightarrow>
               then_do (dump_debug_info b ''lsf_login_no_user'') (\<lambda>_.
               py_raise (PyException ''Username field not found''))
           | Some uf \<Rightarrow>
               then_do (el_clear b uf) (\<lambda>_.
               then_do (el_send_keys b uf (username cr)) (\<lambda>_.
               then_do (resolve_prog b pass_strategies) (\<lambda>pass_field.
               case pass_field of
                 None \<Rightarrow> py_raise (PyException ''Password field not found'')
               | Some pf \<Rightarrow>
                   then_do (el_clear b pf) (\<lambda>_.
                   then_do (el_send_keys b pf (password cr)) (\<lambda>_.
                   then_do (resolve_prog b submit_strategies) (\<lambda>submit_btn.
                   then_do (case submit_btn of Some sb \<Rightarrow> el_click b sb | None \<Rightarrow> el_submit b pf) (\<lambda>_.
                   then_do (handle_2fa b cr) (\<lambda>_.
                   then_do (wait_until b (url_has b ''lsf.tu-dortmund.de'')) (\<lambda>_.
                   py_return True)))))))))) sb = (Inl ?P, sf)"
        by simp
      then show ?thesis
      proof (cases rule: then_do_cases)
        case (raised e)
        then have False using no_py_exnD [OF no_py_resolve_prog] by blast
        then show ?thesis ..
      next
        case step3: (went_on user_field sc)
        have ru: "resolve b user_strategies sb = (user_field, sc)"
          using step3(1) by (auto simp: resolve_prog_def split: prod.splits)
        show ?thesis
        proof (cases user_field)
          case None
          obtain r1 s1 where d: "dump_debug_info b ''lsf_login_no_user'' sc = (r1, s1)"
            by (cases "dump_debug_info b ''lsf_login_no_user'' sc")
          with dump_debug_info_returns [of b "''lsf_login_no_user''" sc] have "r1 = Inr ()" by simp
          with d step3(2) None have False
            by (simp add: then_do_def py_raise_def)
          then show ?thesis ..
        next
          case (Some uf)
          with step3(2) have
            "then_do (el_clear b uf) (\<lambda>_.
               then_do (el_send_keys b uf (username cr)) (\<lambda>_.
               then_do (resolve_prog b pass_strategies) (\<lambda>pass_field.
               case pass_field of
                 None \<Rightarrow> py_raise (PyException ''Password field not found'')
               | Some pf \<Rightarrow>
                   then_do (el_clear b pf) (\<lambda>_.
                   then_do (el_send_keys b pf (password cr)) (\<lambda>_.
                   then_do (resolve_prog b submit_strategies) (\<lambda>submit_btn.
                   then_do (case submit_btn of Some sb \<Rightarrow> el_click b sb | None \<Rightarrow> el_submit b pf) (\<lambda>_.
                   then_do (handle_2fa b cr) (\<lambda>_.
                   then_do (wait_until b (url_has b ''lsf.tu-dortmund.de'')) (\<lambda>_.
                   py_return True))))))))) sc = (Inl ?P, sf)"
            by simp
          then show ?thesis
          proof (cases rule: then_do_cases)
            case (raised e)
            then have False using no_py_exnD [OF no_py_env_call] unfolding el_clear_def by blast
            then show ?thesis ..
          next
            case step4: (went_on u4 sd)
            from step4(2) show ?thesis
            proof (cases rule: then_do_cases)
              case (raised e)
              then have False
                using no_py_exnD [OF no_py_env_call] unfolding el_send_keys_def by blast
              then show ?thesis ..
            next
              case step5: (went_on u5 se)
              from step5(2) show ?thesis
              proof (cases rule: then_do_cases)
                case (raised e)
                then have False using no_py_exnD [OF no_py_resolve_prog] by blast
                then show ?thesis ..
              next
                case step6: (went_on pass_field sg)
                have rp: "resolve b pass_strategies se = (pass_field, sg)"
                  using step6(1) by (auto simp: resolve_prog_def split: prod.splits)
                show ?thesis
                proof (cases pass_field)
                  case (Some pf)
                  with step6(2) have False
                    using no_py_exnD [OF no_py_after_password [of b pf cr]] by simp
                  then show ?thesis ..
                next
                  case None
                  with step6(2) have "sg = sf" by (simp add: py_raise_def)
                  with went_on(1) step2(1) nr ru Some step4(1) step5(1) rp None
                  show ?thesis by auto
                qed
              qed
            qed
          qed
        qed
      qed
    qed
  qed
qed

section \<open>The claims\<close>




text \<open>
  C2. A document whose tags, in document order, are some tags \<open>pre\<close> without a header
  that matches the exact pattern, then the scenario (the header ``Wintersemester
  2025/26'', the anchors ``Algorithmen 12345'', ``Raum 101'', ``Grundlagen der Informatik
  54321'', the header ``Sommersemester 2025''), then any tags \<open>post\<close>. Extraction returns
  exactly the first and the third anchor text, in that order; the text ``Raum 101''
  hits the junk filter (token ``Raum''), and nothing that follows the second header is
  included. The scenario alone is the case of empty \<open>pre\<close> and \<open>post\<close>.
\<close>

theorem scenario_extraction:
  assumes "soup_tags soup = pre @ scenario @ post"
      and "\<forall>e\<in>set pre. \<not> (is_header e \<and> header_matches exact_pattern e)"
  shows "extract_from_soup soup = [''Algorithmen 12345'', ''Grundlagen der Informatik 54321''] \<and>
         junk_hit (normalize (get_text (Tag ''a'' [] [Text ''Raum 101''])))"
proof -
  let ?h1 = "Tag ''div'' [''Leistungen_Inhalt''] [Text ''Wintersemester 2025/26'']"
  let ?as = "[Tag ''a'' [] [Text ''Algorithmen 12345''],
      Tag ''a'' [] [Text ''Raum 101''],
      Tag ''a'' [] [Text ''Grundlagen der Informatik 54321'']]"
  let ?h2 = "Tag ''div'' [''Leistungen_Inhalt''] [Text ''Sommersemester 2025'']"
  let ?hd = "\<lambda>(i :: nat, e). is_header e"
  have tags: "soup_tags soup = pre @ ?h1 # (?as @ ?h2 # post)"
    using assms(1) by (simp add: scenario_def)
  have h1: "is_header ?h1" and h2: "is_header ?h2" by (simp_all add: is_header_def)
  have hs: "find_all_headers soup =
      filter ?hd (enumerate 0 pre) @
      (length pre, ?h1) # filter ?hd (enumerate (Suc (length pre)) (?as @ ?h2 # post))"
    using tags h1 by (rule find_all_headers_split)
  have "\<forall>h\<in>set (filter ?hd (enumerate 0 pre)). \<not> header_matches exact_pattern (snd h)"
    using assms(2) by (auto simp: in_set_enumerate_eq)
  then have "scan_headers exact_pattern (find_all_headers soup) = Some (length pre, ?h1)"
    unfolding hs using scenario_first_header by (simp add: scan_headers_skip)
  then have start: "scan_patterns target_patterns (find_all_headers soup) = Some (length pre, ?h1)"
    by (simp add: target_patterns_def)
  have "find_all_next soup (length pre) = ?as @ ?h2 # post"
    unfolding find_all_next_def tags by simp
  then have "collect_links (find_all_next soup (length pre)) [] = ?as"
    using h2 by (simp add: is_header_def)
  then have "extract_from_soup soup =
     [''Algorithmen 12345'', ''Grundlagen der Informatik 54321'']"
    unfolding extract_from_soup_def start by (simp add: scenario_candidates)
  moreover have "junk_hit (normalize (get_text (Tag ''a'' [] [Text ''Raum 101''])))"
    using scenario_noise by simp
  ultimately show ?thesis by simp
qed

theorem scenario_extraction_witness:
  "soup_tags scenario = [] @ scenario @ [] \<and>
   extract_from_soup scenario = [''Algorithmen 12345'', ''Grundlagen der Informatik 54321''] \<and>
   soup_tags scenario_page =
     take 2 (soup_tags scenario_page) @ scenario @ [Tag ''a'' [] [Text ''Analysis 67890'']] \<and>
   list_ex (\<lambda>e. is_header e \<and> header_matches exact_pattern e)
     (take 2 (soup_tags scenario_page)) = False \<and>
   extract_from_soup scenario_page = [''Algorithmen 12345'', ''Grundlagen der Informatik 54321'']"
proof -
  have a: "soup_tags scenario = [] @ scenario @ []" by code_simp
  have b: "soup_tags scenario_page =
     take 2 (soup_tags scenario_page) @ scenario @ [Tag ''a'' [] [Text ''Analysis 67890'']]"
    by code_simp
  have c: "\<forall>e\<in>set (take 2 (soup_tags scenario_page)).
      \<not> (is_header e \<and> header_matches exact_pattern e)"
    by code_simp
  have d: "list_ex (\<lambda>e. is_header e \<and> header_matches exact_pattern e)
     (take 2 (soup_tags scenario_page)) = False"
    using c by (simp add: list_ex_iff)
  from scenario_extraction [OF a] scenario_extraction [OF b c] a b d show ?thesis by simp
qed

text \<open>
  C3. When the header selected as start is the tag \<open>h2\<close> at position \<open>i\<close> of the
  document order, the tags of the document split into the tags before \<open>h2\<close>, then
  \<open>h2\<close>, then a stretch \<open>mid\<close> without any header, then \<open>after\<close>, which is
  empty (document end) or starts with the next header; the candidate links are exactly
  the anchors of \<open>mid\<close>. Anchors before \<open>h2\<close>, and anchors at or after the next header
  (those inside it come after it in document order), are not among them. A header is
  a \<^verbatim>\<open>div\<close> whose class list holds the marker class.
\<close>

theorem boundary_correct:
  assumes "scan_patterns target_patterns (find_all_headers soup) = Some (i, h2)"
  shows "\<exists>before mid after.
           soup_tags soup = before @ h2 # mid @ after \<and> length before = i \<and> is_header h2 \<and>
           (\<forall>e\<in>set mid. \<not> is_header e) \<and> (after = [] \<or> is_header (hd after)) \<and>
           collect_links (find_all_next soup i) [] = filter (\<lambda>e. tag_name e = ''a'') mid"
proof -
  let ?tags = "soup_tags soup"
  let ?rest = "drop (Suc i) ?tags"
  let ?mid = "takeWhile (\<lambda>e. \<not> is_header e) ?rest"
  let ?after = "dropWhile (\<lambda>e. \<not> is_header e) ?rest"
  from assms have "(i, h2) \<in> set (find_all_headers soup)" by (rule scan_patterns_mem)
  then have i: "i < length ?tags" "?tags ! i = h2" "is_header h2"
    by (simp_all add: in_find_all_headers)
  have "?tags = take i ?tags @ h2 # ?rest"
    using id_take_nth_drop [OF i(1)] i(2) by simp
  then have "?tags = take i ?tags @ h2 # ?mid @ ?after" by simp
  moreover have "length (take i ?tags) = i" using i by simp
  moreover have "\<forall>e\<in>set ?mid. \<not> is_header e" by (auto dest: set_takeWhileD)
  moreover have "?after = [] \<or> is_header (hd ?after)"
    using hd_dropWhile [of "\<lambda>e. \<not> is_header e" ?rest] by auto
  moreover have "collect_links (find_all_next soup i) [] = filter (\<lambda>e. tag_name e = ''a'') ?mid"
    by (simp add: collect_links_eq find_all_next_def)
  ultimately show ?thesis using i(3) by blast
qed

theorem boundary_correct_witness:
  "scan_patterns target_patterns (find_all_headers three_headers) =
     Some (2, Tag ''div'' [''Leistungen_Inhalt''] [Text ''Wintersemester 2025/26'']) \<and>
   (\<exists>before mid after.
      soup_tags three_headers =
        before @ Tag ''div'' [''Leistungen_Inhalt''] [Text ''Wintersemester 2025/26''] # mid @ after \<and>
      length before = 2 \<and>
      (\<forall>e\<in>set mid. \<not> is_header e) \<and> (after = [] \<or> is_header (hd after)) \<and>
      collect_links (find_all_next three_headers 2) [] = filter (\<lambda>e. tag_name e = ''a'') mid) \<and>
   collect_links (find_all_next three_headers 2) [] =
     [Tag ''a'' [] [Text ''Algorithmen 12345''], Tag ''a'' [] [Text ''Logik 23456'']]"
proof -
  have start: "scan_patterns target_patterns (find_all_headers three_headers) =
     Some (2, Tag ''div'' [''Leistungen_Inhalt''] [Text ''Wintersemester 2025/26''])"
    by code_simp
  have links: "collect_links (find_all_next three_headers 2) [] =
     [Tag ''a'' [] [Text ''Algorithmen 12345''], Tag ''a'' [] [Text ''Logik 23456'']]"
    by code_simp
  from boundary_correct [OF start] start links show ?thesis by blast
qed

text \<open>
  C4. The patterns are tried in order. The selected header is the first header in
  document order that matches the exact pattern, if there is one, and otherwise the
  first header that matches the generic pattern. When some header matches the exact
  pattern, the result is the same whatever patterns \<open>ps\<close> come after the exact one:
  the generic pattern plays no part.
\<close>

theorem pattern_priority:
  "scan_patterns target_patterns hs =
     (case find (\<lambda>h. header_matches exact_pattern (snd h)) hs of
        Some h \<Rightarrow> Some h
      | None \<Rightarrow> find (\<lambda>h. header_matches generic_pattern (snd h)) hs) \<and>
   ((\<exists>h\<in>set hs. header_matches exact_pattern (snd h)) \<longrightarrow>
      scan_patterns (exact_pattern # ps) hs = find (\<lambda>h. header_matches exact_pattern (snd h)) hs)"
proof -
  let ?exact = "\<lambda>h. header_matches exact_pattern (snd h)"
  have a: "scan_patterns target_patterns hs =
     (case find ?exact hs of Some h \<Rightarrow> Some h
      | None \<Rightarrow> find (\<lambda>h. header_matches generic_pattern (snd h)) hs)"
    by (simp add: target_patterns_def scan_headers_find split: option.splits)
  have b: "scan_patterns (exact_pattern # ps) hs = find ?exact hs"
    if "\<exists>h\<in>set hs. ?exact h"
  proof -
    have "\<not> (find ?exact hs = None)"
      unfolding find_None_iff using that by blast
    then obtain h where "find ?exact hs = Some h"
      by (cases "find ?exact hs") auto
    then show ?thesis by (simp add: scan_headers_find)
  qed
  from a b show ?thesis by blast
qed

theorem pattern_priority_witness:
  "(\<exists>h\<in>set (find_all_headers three_headers). header_matches exact_pattern (snd h)) \<and>
   scan_patterns (exact_pattern # [Str ''Sommersemester'']) (find_all_headers three_headers) =
     find (\<lambda>h. header_matches exact_pattern (snd h)) (find_all_headers three_headers) \<and>
   scan_patterns target_patterns (find_all_headers three_headers) =
     Some (2, Tag ''div'' [''Leistungen_Inhalt''] [Text ''Wintersemester 2025/26'']) \<and>
   scan_patterns target_patterns (find_all_headers (take 2 three_headers)) =
     Some (0, Tag ''div'' [''Leistungen_Inhalt''] [Text ''Sommersemester 2025''])"
proof -
  have ex: "\<exists>h\<in>set (find_all_headers three_headers). header_matches exact_pattern (snd h)"
    by code_simp
  have a: "scan_patterns target_patterns (find_all_headers three_headers) =
     Some (2, Tag ''div'' [''Leistungen_Inhalt''] [Text ''Wintersemester 2025/26''])"
    by code_simp
  have b: "scan_patterns target_patterns (find_all_headers (take 2 three_headers)) =
     Some (0, Tag ''div'' [''Leistungen_Inhalt''] [Text ''Sommersemester 2025''])"
    by code_simp
  from pattern_priority [of "find_all_headers three_headers" "[Str ''Sommersemester'']"] ex a b
  show ?thesis by blast
qed

text \<open>
  C5. The claim: a link is marked, before the junk and the length filter, if and only if
  its normalized text contains a numeric token of four to six digits
  (\<open>has_id_token\<close>). The code marks more than that. Its search is not anchored, so
  the upper bound of \<^verbatim>\<open>\d{4,6}\<close> has no effect: Logic A accepts exactly the texts
  that \<^verbatim>\<open>\d{4}\<close> accepts. The anchor ``Kurs 1234567'', whose only numeric token has
  seven digits, is marked, passes both filters and is returned by the extraction. A
  text that has a token of four to six digits is always marked (\<open>id_token_marked\<close>).
\<close>

theorem id_mark_upper_bound:
  "logic_a (normalize (get_text (Tag ''a'' [] [Text ''Kurs 1234567'']))) \<and>
   has_id_token (normalize (get_text (Tag ''a'' [] [Text ''Kurs 1234567'']))) = False \<and>
   digit_runs (normalize (get_text (Tag ''a'' [] [Text ''Kurs 1234567'']))) = [''1234567''] \<and>
   is_candidate (normalize (get_text (Tag ''a'' [] [Text ''Kurs 1234567'']))) \<and>
   extract_from_soup
     [Tag ''div'' [''Leistungen_Inhalt''] [Text ''Wintersemester 2025/26''],
      Tag ''a'' [] [Text ''Kurs 1234567'']] = [''Kurs 1234567''] \<and>
   logic_a t = re_search False (Rep 4 4 Dig) t"
proof -
  have "logic_a (normalize (get_text (Tag ''a'' [] [Text ''Kurs 1234567'']))) \<and>
   has_id_token (normalize (get_text (Tag ''a'' [] [Text ''Kurs 1234567'']))) = False \<and>
   digit_runs (normalize (get_text (Tag ''a'' [] [Text ''Kurs 1234567'']))) = [''1234567''] \<and>
   is_candidate (normalize (get_text (Tag ''a'' [] [Text ''Kurs 1234567'']))) \<and>
   extract_from_soup
     [Tag ''div'' [''Leistungen_Inhalt''] [Text ''Wintersemester 2025/26''],
      Tag ''a'' [] [Text ''Kurs 1234567'']] = [''Kurs 1234567'']"
    by code_simp
  with logic_a_four [of t] show ?thesis by simp
qed

text \<open>
  C6. For every list of candidate links the output of step 3 has no text twice, and it
  is the list of the accepted normalized texts with only the first occurrence of each
  kept, in the order of those first occurrences. Texts are compared as they are, so two
  texts that differ in letter case are both kept.
\<close>

theorem dedup_first_seen:
  "distinct (process_candidates links) \<and>
   process_candidates links =
     first_occurrences (filter is_candidate (map (\<lambda>l. normalize (get_text l)) links))"
  by (simp add: process_candidates_def process_links_eq distinct_first_occurrences)

theorem dedup_first_seen_witness:
  "process_candidates
     [Tag ''a'' [] [Text ''Logik 23456''], Tag ''a'' [] [Text ''Algorithmen 12345''],
      Tag ''a'' [] [Text ''Logik  23456''], Tag ''a'' [] [Text ''logik 23456'']] =
   [''Logik 23456'', ''Algorithmen 12345'', ''logik 23456''] \<and>
   distinct (process_candidates
     [Tag ''a'' [] [Text ''Logik 23456''], Tag ''a'' [] [Text ''Algorithmen 12345''],
      Tag ''a'' [] [Text ''Logik  23456''], Tag ''a'' [] [Text ''logik 23456'']])"
proof -
  have "first_occurrences (filter is_candidate (map (\<lambda>l. normalize (get_text l))
     [Tag ''a'' [] [Text ''Logik 23456''], Tag ''a'' [] [Text ''Algorithmen 12345''],
      Tag ''a'' [] [Text ''Logik  23456''], Tag ''a'' [] [Text ''logik 23456'']])) =
     [''Logik 23456'', ''Algorithmen 12345'', ''logik 23456'']"
    by code_simp
  with dedup_first_seen [of "[Tag ''a'' [] [Text ''Logik 23456''], Tag ''a'' [] [Text ''Algorithmen 12345''],
      Tag ''a'' [] [Text ''Logik  23456''], Tag ''a'' [] [Text ''logik 23456'']]"]
  show ?thesis by simp
qed

text \<open>
  C7, as amended. When the run has obtained the lectures page and no header of the parsed
  page matches a term pattern, a driver exists and the outcome of
  \<^verbatim>\<open>get_current_classes\<close> is decided by the call of \<^verbatim>\<open>quit\<close> in the \<^verbatim>\<open>finally\<close>
  clause alone: when \<^verbatim>\<open>quit\<close> returns, the operation returns
  \<^verbatim>\<open>{"success": True, "current_classes": []}\<close>; when \<^verbatim>\<open>quit\<close> raises, its exception
  leaves the operation in place of that result. This holds with or without the legacy
  marker text in the page, since the legacy path returns the empty list too.
\<close>

theorem no_header_empty_success:
  assumes page: "fetch_lectures_html b cr s = (Inr (Some html), s1)"
      and no_header: "scan_patterns target_patterns (find_all_headers (b_parse b html)) = None"
  shows "has_driver s1 \<and>
         (\<forall>s2. drv_quit b s1 = (Inr (), s2) \<longrightarrow>
                get_current_classes b cr s = (Inr (Success []), s2)) \<and>
         (\<forall>e s2. drv_quit b s1 = (Inl e, s2) \<longrightarrow> get_current_classes b cr s = (Inl e, s2))"
proof -
  have d: "has_driver s1" using page by (rule fetched_page_driver)
  have "extract_current_classes b html = []"
    using no_header by (simp add: extract_current_classes_def extract_without_header)
  with page have "py_try (try_block b cr) (\<lambda>e. py_return (Failure (exn_str e))) s =
             (Inr (Success []), s1)"
    by (simp add: py_try_def try_block_def then_do_def py_return_def)
  with d show ?thesis
    by (simp add: get_current_classes_def)
qed

text \<open>
  C7 as the spec states it fails: the page of the logged-in browser has no term header
  and no legacy marker text, and with a \<^verbatim>\<open>quit\<close> that raises the operation raises
  instead of returning the empty success.
\<close>

theorem no_header_empty_success_counterexample:
  "fetch_lectures_html portal_quit_fails student fresh =
     (Inr (Some ''<html><a>Abmelden</a></html>''),
      \<lparr>world = (), has_driver = True, trace = [EvGet lsf_url]\<rparr>) \<and>
   scan_patterns target_patterns
     (find_all_headers (b_parse portal_quit_fails ''<html><a>Abmelden</a></html>'')) = None \<and>
   py_in ''Aktuelle Veranstaltungen''
     (soup_get_text (b_parse portal_quit_fails ''<html><a>Abmelden</a></html>'')) = False \<and>
   fst (get_current_classes portal_quit_fails student fresh) =
     Inl (External (OtherError ''invalid session id'')) \<and>
   fst (get_current_classes portal_quit_fails student fresh) \<noteq> Inr (Success [])"
  by code_simp

theorem no_header_empty_success_witness:
  "fetch_lectures_html portal_logged_in student fresh =
     (Inr (Some ''<html><a>Abmelden</a></html>''),
      \<lparr>world = (), has_driver = True, trace = [EvGet lsf_url]\<rparr>) \<and>
   scan_patterns target_patterns
     (find_all_headers (b_parse portal_logged_in ''<html><a>Abmelden</a></html>'')) = None \<and>
   drv_quit portal_logged_in \<lparr>world = (), has_driver = True, trace = [EvGet lsf_url]\<rparr> =
     (Inr (), \<lparr>world = (), has_driver = True, trace = [EvGet lsf_url, EvQuit]\<rparr>) \<and>
   get_current_classes portal_logged_in student fresh =
     (Inr (Success []), \<lparr>world = (), has_driver = True, trace = [EvGet lsf_url, EvQuit]\<rparr>) \<and>
   fetch_lectures_html portal_quit_fails student fresh =
     (Inr (Some ''<html><a>Abmelden</a></html>''),
      \<lparr>world = (), has_driver = True, trace = [EvGet lsf_url]\<rparr>) \<and>
   get_current_classes portal_quit_fails student fresh =
     (Inl (External (OtherError ''invalid session id'')),
      \<lparr>world = (), has_driver = True, trace = [EvGet lsf_url, EvQuit]\<rparr>)"
proof -
  let ?s1 = "\<lparr>world = (), has_driver = True, trace = [EvGet lsf_url]\<rparr>"
  let ?s2 = "\<lparr>world = (), has_driver = True, trace = [EvGet lsf_url, EvQuit]\<rparr>"
  have h1: "fetch_lectures_html portal_logged_in student fresh =
     (Inr (Some ''<html><a>Abmelden</a></html>''), ?s1)"
    by code_simp
  have h2: "scan_patterns target_patterns
     (find_all_headers (b_parse portal_logged_in ''<html><a>Abmelden</a></html>'')) = None"
    by code_simp
  have q: "drv_quit portal_logged_in ?s1 = (Inr (), ?s2)"
    by code_simp
  have g1: "fetch_lectures_html portal_quit_fails student fresh =
     (Inr (Some ''<html><a>Abmelden</a></html>''), ?s1)"
    by code_simp
  have g2: "scan_patterns target_patterns
     (find_all_headers (b_parse portal_quit_fails ''<html><a>Abmelden</a></html>'')) = None"
    by code_simp
  have q2: "drv_quit portal_quit_fails ?s1 = (Inl (External (OtherError ''invalid session id'')), ?s2)"
    by code_simp
  from no_header_empty_success [OF h1 h2] q
  have a: "get_current_classes portal_logged_in student fresh = (Inr (Success []), ?s2)" by blast
  from no_header_empty_success [OF g1 g2] q2
  have b: "get_current_classes portal_quit_fails student fresh =
     (Inl (External (OtherError ''invalid session id'')), ?s2)" by blast
  from h1 h2 q a g1 b show ?thesis by blast
qed

text \<open>
  C8. In an authenticated session (a set \<open>A\<close> of worlds as in
  \<open>authenticated_session\<close>) with a driver, \<^verbatim>\<open>login\<close> returns \<^verbatim>\<open>True\<close> and its only action
  is the navigation to the lectures page: no field is cleared, typed into or submitted
  and nothing is clicked. A second call from the state the first one left returns
  \<^verbatim>\<open>True\<close> again, with one more navigation as its only action. The credential
  injection itself, called in such a session, returns \<^verbatim>\<open>True\<close> without any action.
\<close>

theorem resumed_login_idempotent:
  assumes "authenticated_session b A" and "world s \<in> A" and "has_driver s"
  shows "\<exists>s1 s2 s3.
           login b cr s = (Inr True, s1) \<and> trace s1 = trace s @ [EvGet lsf_url] \<and>
           login b cr s1 = (Inr True, s2) \<and> trace s2 = trace s @ [EvGet lsf_url, EvGet lsf_url] \<and>
           inject_sso_credentials b cr s = (Inr True, s3) \<and> trace s3 = trace s"
proof -
  from login_resumes [OF assms, of cr] obtain s1 where
    a: "login b cr s = (Inr True, s1)" "world s1 \<in> A" "has_driver s1"
       "trace s1 = trace s @ [EvGet lsf_url]" by blast
  from login_resumes [OF assms(1) a(2) a(3), of cr] obtain s2 where
    b: "login b cr s1 = (Inr True, s2)" "trace s2 = trace s1 @ [EvGet lsf_url]" by blast
  from inject_resumes [OF assms, of cr] obtain s3 where
    c: "inject_sso_credentials b cr s = (Inr True, s3)" "trace s3 = trace s" by blast
  from a b c show ?thesis by simp
qed

theorem resumed_login_idempotent_witness:
  "authenticated_session portal_logged_in UNIV \<and>
   (\<exists>s1 s2 s3.
      login portal_logged_in student \<lparr>world = (), has_driver = True, trace = []\<rparr> = (Inr True, s1) \<and>
      trace s1 = [EvGet lsf_url] \<and>
      login portal_logged_in student s1 = (Inr True, s2) \<and>
      trace s2 = [EvGet lsf_url, EvGet lsf_url] \<and>
      inject_sso_credentials portal_logged_in student \<lparr>world = (), has_driver = True, trace = []\<rparr> =
        (Inr True, s3) \<and>
      trace s3 = [])"
proof -
  have u: "py_in ''lsf.tu-dortmund.de'' lsf_url" by code_simp
  have p: "py_in ''Abmelden'' ''<html><a>Abmelden</a></html>''" by code_simp
  have a: "authenticated_session portal_logged_in UNIV"
    using u p
    by (simp add: authenticated_session_def portal_logged_in_def sso_without_password_def)
  from resumed_login_idempotent [OF a, of "\<lparr>world = (), has_driver = True, trace = []\<rparr>" student] a
  show ?thesis by simp
qed

text \<open>
  C9. For every behaviour of the collaborators and every start state: when
  \<^verbatim>\<open>_setup_driver\<close> leaves a driver, the last action of \<^verbatim>\<open>get_current_classes\<close> is the
  call of \<^verbatim>\<open>quit\<close> on it, whichever way the operation ends (a result of success, a
  failed login, an exception caught by the operation, or an exception of \<^verbatim>\<open>quit\<close>
  itself).
\<close>

theorem quit_on_every_exit:
  assumes "has_driver (snd (setup_driver b s))"
  shows "trace (snd (get_current_classes b cr s)) \<noteq> [] \<and>
         last (trace (snd (get_current_classes b cr s))) = EvQuit"
proof -
  let ?t = "py_try (try_block b cr) (\<lambda>e. py_return (Failure (exn_str e)))"
  obtain r s1 where t: "?t s = (r, s1)" by (cases "?t s")
  have d: "has_driver s1" using try_block_driver [of b cr s] t assms by simp
  obtain q w where q: "b_quit b (world s1) = (q, w)" by (cases "b_quit b (world s1)")
  have "snd (get_current_classes b cr s) = s1\<lparr>world := w, trace := trace s1 @ [EvQuit]\<rparr>"
    using t d q by (cases q) (simp_all add: get_current_classes_def drv_quit_def drv_call_def)
  then show ?thesis using d by simp
qed

theorem quit_on_every_exit_witness:
  "has_driver (snd (setup_driver portal_logged_in fresh)) \<and>
   fst (get_current_classes portal_logged_in student fresh) = Inr (Success []) \<and>
   last (trace (snd (get_current_classes portal_logged_in student fresh))) = EvQuit \<and>
   has_driver (snd (setup_driver sso_without_password fresh)) \<and>
   fst (get_current_classes sso_without_password student fresh) = Inr (Failure ''Login failed'') \<and>
   last (trace (snd (get_current_classes sso_without_password student fresh))) = EvQuit \<and>
   has_driver (snd (setup_driver browser_down fresh)) \<and>
   fst (get_current_classes browser_down student fresh) =
     Inr (Failure ''net::ERR_CONNECTION_REFUSED'') \<and>
   last (trace (snd (get_current_classes browser_down student fresh))) = EvQuit"
proof -
  have d1: "has_driver (snd (setup_driver portal_logged_in fresh))" by code_simp
  have d2: "has_driver (snd (setup_driver sso_without_password fresh))" by code_simp
  have d3: "has_driver (snd (setup_driver browser_down fresh))" by code_simp
  have r1: "fst (get_current_classes portal_logged_in student fresh) = Inr (Success [])"
    by code_simp
  have r2: "fst (get_current_classes sso_without_password student fresh) = Inr (Failure ''Login failed'')"
    by code_simp
  have r3: "fst (get_current_classes browser_down student fresh) =
     Inr (Failure ''net::ERR_CONNECTION_REFUSED'')"
    by code_simp
  from quit_on_every_exit [OF d1, of student] quit_on_every_exit [OF d2, of student]
    quit_on_every_exit [OF d3, of student] d1 d2 d3 r1 r2 r3
  show ?thesis by blast
qed

text \<open>
  C10. Let the header at position \<open>k\<close> of the header list have a normalized text that
  is, up to the case of its letters, the text \<open>u\<close>. Whatever pattern \<open>u\<close> matches
  as it is written, the header matches too. When \<open>u\<close> matches the exact pattern as
  written and no earlier header matches it, the header is selected as start; when
  \<open>u\<close> matches the generic pattern as written, no header matches the exact pattern
  and no earlier header matches the generic one, the header is selected as start. Only
  the letter case is ignored: a header that matches the exact pattern contains
  ``2025/26'' as written, and one that matches the generic pattern contains four digits
  in a row.
\<close>

theorem header_match_ignores_case:
  assumes "k < length hs"
      and "same_up_to_case (normalize (get_text (snd (hs ! k)))) u"
  shows "(\<forall>p. re_search False p u \<longrightarrow> header_matches p (snd (hs ! k))) \<and>
         (re_search False exact_pattern u \<and>
          (\<forall>j<k. \<not> header_matches exact_pattern (snd (hs ! j)))
            \<longrightarrow> scan_patterns target_patterns hs = Some (hs ! k)) \<and>
         (re_search False generic_pattern u \<and>
          (\<forall>h\<in>set hs. \<not> header_matches exact_pattern (snd h)) \<and>
          (\<forall>j<k. \<not> header_matches generic_pattern (snd (hs ! j)))
            \<longrightarrow> scan_patterns target_patterns hs = Some (hs ! k)) \<and>
         (\<forall>h. header_matches exact_pattern h \<longrightarrow> py_in ''2025/26'' (normalize (get_text h))) \<and>
         (\<forall>h. header_matches generic_pattern h \<longrightarrow>
            (\<exists>pre mid post. normalize (get_text h) = pre @ mid @ post \<and> length mid = 4 \<and>
               (\<forall>c\<in>set mid. py_isdigit c)))"
proof -
  have m: "header_matches p (snd (hs ! k))" if "re_search False p u" for p
    unfolding header_matches_def using assms(2) that by (rule recased_matches)
  have a: "scan_patterns target_patterns hs = Some (hs ! k)"
    if "re_search False exact_pattern u" "\<forall>j<k. \<not> header_matches exact_pattern (snd (hs ! j))"
    using scan_headers_first [OF assms(1) m [OF that(1)] that(2)]
    by (simp add: target_patterns_def)
  have b: "scan_patterns target_patterns hs = Some (hs ! k)"
    if "re_search False generic_pattern u" "\<forall>h\<in>set hs. \<not> header_matches exact_pattern (snd h)"
       "\<forall>j<k. \<not> header_matches generic_pattern (snd (hs ! j))"
    using scan_headers_first [OF assms(1) m [OF that(1)] that(3)] scan_headers_none [OF that(2)]
    by (simp add: target_patterns_def)
  have c: "py_in ''2025/26'' (normalize (get_text h))" if "header_matches exact_pattern h" for h
    using that unfolding header_matches_def by (rule exact_needs_digits)
  have d: "\<exists>pre mid post. normalize (get_text h) = pre @ mid @ post \<and> length mid = 4 \<and>
               (\<forall>c\<in>set mid. py_isdigit c)" if "header_matches generic_pattern h" for h
    using that unfolding header_matches_def by (rule generic_needs_digits)
  from m a b c d show ?thesis by blast
qed

theorem header_match_ignores_case_witness:
  "same_up_to_case (normalize (get_text (snd (find_all_headers mixed_case_headers ! 1))))
     ''Wintersemester 2025/26'' \<and>
   re_search False exact_pattern ''Wintersemester 2025/26'' \<and>
   re_search False exact_pattern ''wintersemester 2025/26'' = False \<and>
   scan_patterns target_patterns (find_all_headers mixed_case_headers) =
     Some (1, Tag ''div'' [''Leistungen_Inhalt''] [Text ''wintersemester 2025/26'']) \<and>
   same_up_to_case (normalize (get_text (snd (find_all_headers mixed_case_generic ! 1))))
     ''Sommersemester 2024'' \<and>
   re_search False generic_pattern ''Sommersemester 2024'' \<and>
   scan_patterns target_patterns (find_all_headers mixed_case_generic) =
     Some (1, Tag ''div'' [''Leistungen_Inhalt''] [Text ''SOMMERsemester 2024''])"
proof -
  let ?hs = "find_all_headers mixed_case_headers"
  let ?gs = "find_all_headers mixed_case_generic"
  have k: "1 < length ?hs" by code_simp
  have r: "same_up_to_case (normalize (get_text (snd (?hs ! 1)))) ''Wintersemester 2025/26''"
    by code_simp
  have w: "re_search False exact_pattern ''Wintersemester 2025/26''" by code_simp
  have n: "re_search False exact_pattern ''wintersemester 2025/26'' = False" by code_simp
  have "\<not> header_matches exact_pattern (snd (?hs ! 0))" by code_simp
  then have e: "\<forall>j<1. \<not> header_matches exact_pattern (snd (?hs ! j))" by simp
  have v: "?hs ! 1 = (1, Tag ''div'' [''Leistungen_Inhalt''] [Text ''wintersemester 2025/26''])"
    by code_simp
  have k2: "1 < length ?gs" by code_simp
  have r2: "same_up_to_case (normalize (get_text (snd (?gs ! 1)))) ''Sommersemester 2024''"
    by code_simp
  have w2: "re_search False generic_pattern ''Sommersemester 2024''" by code_simp
  have e2: "\<forall>h\<in>set ?gs. \<not> header_matches exact_pattern (snd h)" by code_simp
  have "\<not> header_matches generic_pattern (snd (?gs ! 0))" by code_simp
  then have e3: "\<forall>j<1. \<not> header_matches generic_pattern (snd (?gs ! j))" by simp
  have v2: "?gs ! 1 = (1, Tag ''div'' [''Leistungen_Inhalt''] [Text ''SOMMERsemester 2024''])"
    by code_simp
  have "scan_patterns target_patterns ?hs = Some (?hs ! 1)"
    using header_match_ignores_case [OF k r] w e by blast
  then have a: "scan_patterns target_patterns ?hs =
     Some (1, Tag ''div'' [''Leistungen_Inhalt''] [Text ''wintersemester 2025/26''])"
    by (simp only: v)
  have "scan_patterns target_patterns ?gs = Some (?gs ! 1)"
    using header_match_ignores_case [OF k2 r2] w2 e2 e3 by blast
  then have b: "scan_patterns target_patterns ?gs =
     Some (1, Tag ''div'' [''Leistungen_Inhalt''] [Text ''SOMMERsemester 2024''])"
    by (simp only: v2)
  from r w n a r2 w2 b show ?thesis by blast
qed

end
